theory Spec2Isabelle
  imports Main "HOL-Library.Finite_Map"
begin

section \<open>Domain entities (internal/domain)\<close>

text \<open>
  The Go domain package declares \<^verbatim>\<open>TaskID\<close> as \<^verbatim>\<open>int\<close> and \<^verbatim>\<open>UserID\<close>, \<^verbatim>\<open>TaskStatus\<close>,
  \<^verbatim>\<open>Priority\<close> and \<^verbatim>\<open>Tag\<close> as \<^verbatim>\<open>string\<close>. The named constants are the values the
  program expects, but any string can be passed in, so the string types are kept.
  Time stamps are clock readings, modelled as integers (nanoseconds); every operation that
  calls \<^verbatim>\<open>time.Now()\<close> receives its reading as the argument \<open>now\<close>.
\<close>

type_synonym TaskID = int
type_synonym UserID = string
type_synonym TaskStatus = string
type_synonym Priority = string
type_synonym Tag = string
type_synonym Time = int

abbreviation StatusPending :: TaskStatus where "StatusPending \<equiv> ''pending''"
abbreviation StatusInProgress :: TaskStatus where "StatusInProgress \<equiv> ''in_progress''"
abbreviation StatusCompleted :: TaskStatus where "StatusCompleted \<equiv> ''completed''"
abbreviation StatusCancelled :: TaskStatus where "StatusCancelled \<equiv> ''cancelled''"
abbreviation StatusBlocked :: TaskStatus where "StatusBlocked \<equiv> ''blocked''"

abbreviation PriorityLow :: Priority where "PriorityLow \<equiv> ''low''"
abbreviation PriorityMedium :: Priority where "PriorityMedium \<equiv> ''medium''"
abbreviation PriorityHigh :: Priority where "PriorityHigh \<equiv> ''high''"
abbreviation PriorityCritical :: Priority where "PriorityCritical \<equiv> ''critical''"

abbreviation TagBug :: Tag where "TagBug \<equiv> ''bug''"
abbreviation TagFeature :: Tag where "TagFeature \<equiv> ''feature''"
abbreviation TagEnhancement :: Tag where "TagEnhancement \<equiv> ''enhancement''"
abbreviation TagDocumentation :: Tag where "TagDocumentation \<equiv> ''documentation''"

text \<open>
  \<^verbatim>\<open>Task.Dependencies\<close> is a Go \<^verbatim>\<open>map[TaskID]bool\<close> whose values are always \<^verbatim>\<open>true\<close> and
  are never read: the program only ranges over the keys and tests key presence. The model
  keeps the keys as a list; the list order stands for the (unspecified) order in which Go
  ranges over the map.
\<close>

record Task =
  ID :: TaskID
  Title :: string
  Description :: string
  Status :: TaskStatus
  Priority :: Priority
  Assignee :: UserID
  CreatedBy :: UserID
  CreatedAt :: Time
  UpdatedAt :: Time
  DueDate :: "Time option"
  Tags :: "Tag list"
  Dependencies :: "TaskID list"

record User =
  User_ID :: UserID
  User_Name :: string
  User_Email :: string
  User_JoinedAt :: Time

record Session =
  Session_UserID :: UserID
  Session_Token :: string
  Session_Active :: bool
  Session_CreatedAt :: Time
  Session_ExpiresAt :: Time

definition IsExpired :: "Session \<Rightarrow> Time \<Rightarrow> bool" where
  "IsExpired s now = (now > Session_ExpiresAt s)"

definition IsValid :: "Session \<Rightarrow> Time \<Rightarrow> bool" where
  "IsValid s now = (Session_Active s \<and> \<not> IsExpired s now)"

definition MaxTasks :: int where
  "MaxTasks = 1000"

subsection \<open>The transition table\<close>

definition ValidTransitions :: "(TaskStatus \<times> TaskStatus) list" where
  "ValidTransitions =
    [(StatusPending, StatusInProgress),
     (StatusPending, StatusCancelled),
     (StatusPending, StatusBlocked),
     (StatusInProgress, StatusCompleted),
     (StatusInProgress, StatusCancelled),
     (StatusInProgress, StatusBlocked),
     (StatusInProgress, StatusPending),
     (StatusBlocked, StatusPending),
     (StatusBlocked, StatusInProgress),
     (StatusBlocked, StatusCancelled)]"

definition IsValidTransition :: "TaskStatus \<Rightarrow> TaskStatus \<Rightarrow> bool" where
  "IsValidTransition from to = ((from, to) \<in> set ValidTransitions)"

definition CanDelete :: "Task \<Rightarrow> bool" where
  "CanDelete t = (Status t = StatusCompleted \<or> Status t = StatusCancelled)"

text \<open>
  \<^verbatim>\<open>ShouldUnblock\<close> skips a dependency id that is not a key of \<^verbatim>\<open>allTasks\<close>.
\<close>

definition dep_not_incomplete :: "(TaskID, Task) fmap \<Rightarrow> TaskID \<Rightarrow> bool" where
  "dep_not_incomplete allTasks depID =
     (case fmlookup allTasks depID of
        None \<Rightarrow> True
      | Some dep \<Rightarrow> Status dep = StatusCompleted)"

definition ShouldUnblock :: "Task \<Rightarrow> (TaskID, Task) fmap \<Rightarrow> bool" where
  "ShouldUnblock t allTasks =
     (if Status t \<noteq> StatusBlocked then False
      else list_all (dep_not_incomplete allTasks) (Dependencies t))"

definition isValidStatus :: "TaskStatus \<Rightarrow> bool" where
  "isValidStatus status =
     (status \<in> {StatusPending, StatusInProgress, StatusCompleted, StatusCancelled, StatusBlocked})"

definition isValidPriority :: "Priority \<Rightarrow> bool" where
  "isValidPriority priority =
     (priority \<in> {PriorityLow, PriorityMedium, PriorityHigh, PriorityCritical})"

definition isValidTag :: "Tag \<Rightarrow> bool" where
  "isValidTag tag = (tag \<in> {TagBug, TagFeature, TagEnhancement, TagDocumentation})"

datatype validation_error =
    EmptyTitle | EmptyDescription | InvalidStatus | InvalidPriority
  | NoAssignee | NoCreator | CreatedAfterUpdated | InvalidTag

definition Validate :: "Task \<Rightarrow> validation_error option" where
  "Validate t =
     (if Title t = [] then Some EmptyTitle
      else if Description t = [] then Some EmptyDescription
      else if \<not> isValidStatus (Status t) then Some InvalidStatus
      else if \<not> isValidPriority (Priority t) then Some InvalidPriority
      else if Assignee t = [] then Some NoAssignee
      else if CreatedBy t = [] then Some NoCreator
      else if CreatedAt t > UpdatedAt t then Some CreatedAfterUpdated
      else if \<not> list_all isValidTag (Tags t) then Some InvalidTag
      else None)"

section \<open>The in-memory store (internal/infrastructure/memory)\<close>

text \<open>
  The Go maps of the repository are finite maps. \<^verbatim>\<open>userTasks\<close> maps a user to the key set
  of an inner \<^verbatim>\<open>map[TaskID]bool\<close>; \<^verbatim>\<open>sessions\<close> is keyed by token.
\<close>

record MemoryRepository =
  tasks :: "(TaskID, Task) fmap"
  users :: "(UserID, User) fmap"
  sessions :: "(string, Session) fmap"
  userTasks :: "(UserID, TaskID set) fmap"
  nextTaskID :: TaskID
  currentUser :: "UserID option"
  clock :: Time

datatype invariant =
    NoOrphanTasks | TaskOwnership | ValidTaskIds | NoDuplicateTaskIds
  | ValidStateTransitions | ConsistentTimestamps | NoCyclicDependencies
  | AuthenticationRequired

datatype error =
    AuthRequired
  | UserNotFound
  | SessionAlreadyActive
  | SessionTokenExists
  | MaxTasksReached
  | DependencyMissing TaskID
  | DependencyCancelled TaskID
  | CyclicDependency
  | ValidationFailed validation_error
  | TaskAlreadyExists
  | TaskNotFound
  | AccessDenied
  | InvalidTransition
  | DependencyNotCompleted
  | NotDeletable
  | HasDependents
  | InvariantViolation invariant

definition add_user_task :: "(UserID, TaskID set) fmap \<Rightarrow> UserID \<Rightarrow> TaskID \<Rightarrow> (UserID, TaskID set) fmap" where
  "add_user_task ut u tid =
     (case fmlookup ut u of
        None \<Rightarrow> fmupd u {tid} ut
      | Some ids \<Rightarrow> fmupd u (insert tid ids) ut)"

definition remove_user_task :: "(UserID, TaskID set) fmap \<Rightarrow> UserID \<Rightarrow> TaskID \<Rightarrow> (UserID, TaskID set) fmap" where
  "remove_user_task ut u tid =
     (case fmlookup ut u of
        None \<Rightarrow> ut
      | Some ids \<Rightarrow> fmupd u (ids - {tid}) ut)"

text \<open>
  \<^verbatim>\<open>CreateTask\<close> of the repository assigns an id only when the task arrives with id 0; the
  counter bump of that branch stays even when the insertion is then refused. The task is
  passed by pointer, so the caller sees the id: the model returns the task.
\<close>

definition repo_CreateTask :: "MemoryRepository \<Rightarrow> Task \<Rightarrow> (error option \<times> Task) \<times> MemoryRepository" where
  "repo_CreateTask r task =
     (let task1 = (if ID task = 0 then task\<lparr>ID := nextTaskID r\<rparr> else task);
          r1 = (if ID task = 0 then r\<lparr>nextTaskID := nextTaskID r + 1\<rparr> else r)
      in if fmlookup (tasks r1) (ID task1) \<noteq> None then ((Some TaskAlreadyExists, task1), r1)
         else ((None, task1),
               r1\<lparr>tasks := fmupd (ID task1) task1 (tasks r1),
                   userTasks := add_user_task (userTasks r1) (Assignee task1) (ID task1)\<rparr>))"

definition GetTask :: "MemoryRepository \<Rightarrow> TaskID \<Rightarrow> error + Task" where
  "GetTask r tid = (case fmlookup (tasks r) tid of None \<Rightarrow> Inl TaskNotFound | Some t \<Rightarrow> Inr t)"

definition repo_UpdateTask :: "MemoryRepository \<Rightarrow> Task \<Rightarrow> error option \<times> MemoryRepository" where
  "repo_UpdateTask r task =
     (case fmlookup (tasks r) (ID task) of
        None \<Rightarrow> (Some TaskNotFound, r)
      | Some existing \<Rightarrow>
          (None,
           r\<lparr>userTasks :=
                (if Assignee existing \<noteq> Assignee task
                 then add_user_task (remove_user_task (userTasks r) (Assignee existing) (ID task))
                        (Assignee task) (ID task)
                 else userTasks r),
              tasks := fmupd (ID task) task (tasks r)\<rparr>))"

definition repo_DeleteTask :: "MemoryRepository \<Rightarrow> TaskID \<Rightarrow> error option \<times> MemoryRepository" where
  "repo_DeleteTask r tid =
     (case fmlookup (tasks r) tid of
        None \<Rightarrow> (Some TaskNotFound, r)
      | Some task \<Rightarrow>
          (None,
           r\<lparr>userTasks := remove_user_task (userTasks r) (Assignee task) tid,
              tasks := fmdrop tid (tasks r)\<rparr>))"

definition GetAllTasks :: "MemoryRepository \<Rightarrow> (TaskID, Task) fmap" where
  "GetAllTasks r = tasks r"

text \<open>
  The listing functions range over the task map and collect copies in a slice. Go leaves
  the order open; the model ranges in ascending key order.
\<close>

definition task_values :: "(TaskID, Task) fmap \<Rightarrow> Task list" where
  "task_values m = map snd (sorted_list_of_fmap m)"

definition GetTasksByStatus :: "MemoryRepository \<Rightarrow> TaskStatus \<Rightarrow> Task list" where
  "GetTasksByStatus r status = filter (\<lambda>t. Status t = status) (task_values (tasks r))"

definition GetTasksByDependency :: "MemoryRepository \<Rightarrow> TaskID \<Rightarrow> Task list" where
  "GetTasksByDependency r tid = filter (\<lambda>t. tid \<in> set (Dependencies t)) (task_values (tasks r))"

definition bulk_set_status :: "TaskStatus \<Rightarrow> Time \<Rightarrow> TaskID \<Rightarrow> (TaskID, Task) fmap \<Rightarrow> (TaskID, Task) fmap" where
  "bulk_set_status status now tid m =
     (case fmlookup m tid of
        None \<Rightarrow> m
      | Some task \<Rightarrow> fmupd tid (task\<lparr>Status := status, UpdatedAt := now\<rparr>) m)"

definition repo_BulkUpdateStatus :: "MemoryRepository \<Rightarrow> TaskID list \<Rightarrow> TaskStatus \<Rightarrow> Time \<Rightarrow> MemoryRepository" where
  "repo_BulkUpdateStatus r taskIDs status now =
     r\<lparr>tasks := fold (bulk_set_status status now) taskIDs (tasks r)\<rparr>"

definition GetUser :: "MemoryRepository \<Rightarrow> UserID \<Rightarrow> error + User" where
  "GetUser r uid = (case fmlookup (users r) uid of None \<Rightarrow> Inl UserNotFound | Some u \<Rightarrow> Inr u)"

definition CreateSession :: "MemoryRepository \<Rightarrow> Session \<Rightarrow> error option \<times> MemoryRepository" where
  "CreateSession r session =
     (if fmlookup (sessions r) (Session_Token session) \<noteq> None then (Some SessionTokenExists, r)
      else (None, r\<lparr>sessions := fmupd (Session_Token session) session (sessions r)\<rparr>))"

text \<open>
  \<^verbatim>\<open>GetSessionByUser\<close> returns some valid session of the user, or an error when there is
  none. Which one it returns when there are several depends on Go's map order; its caller
  \<^verbatim>\<open>Authenticate\<close> only asks whether it found one, so the model returns the candidates.
\<close>

definition GetSessionByUser :: "MemoryRepository \<Rightarrow> UserID \<Rightarrow> Time \<Rightarrow> (string, Session) fmap" where
  "GetSessionByUser r uid now =
     fmfilter (\<lambda>tok. case fmlookup (sessions r) tok of
                        None \<Rightarrow> False
                      | Some s \<Rightarrow> Session_UserID s = uid \<and> IsValid s now) (sessions r)"

definition GetNextTaskID :: "MemoryRepository \<Rightarrow> TaskID" where
  "GetNextTaskID r = nextTaskID r"

definition IncrementNextTaskID :: "MemoryRepository \<Rightarrow> MemoryRepository" where
  "IncrementNextTaskID r = r\<lparr>nextTaskID := nextTaskID r + 1\<rparr>"

definition GetCurrentUser :: "MemoryRepository \<Rightarrow> UserID option" where
  "GetCurrentUser r = currentUser r"

definition SetCurrentUser :: "MemoryRepository \<Rightarrow> UserID option \<Rightarrow> MemoryRepository" where
  "SetCurrentUser r u = r\<lparr>currentUser := u\<rparr>"

definition GetUserTasks :: "MemoryRepository \<Rightarrow> UserID \<Rightarrow> TaskID set" where
  "GetUserTasks r u = (case fmlookup (userTasks r) u of None \<Rightarrow> {} | Some ids \<Rightarrow> ids)"

definition AddUserTask :: "MemoryRepository \<Rightarrow> UserID \<Rightarrow> TaskID \<Rightarrow> MemoryRepository" where
  "AddUserTask r u tid = r\<lparr>userTasks := add_user_task (userTasks r) u tid\<rparr>"

definition RemoveUserTask :: "MemoryRepository \<Rightarrow> UserID \<Rightarrow> TaskID \<Rightarrow> MemoryRepository" where
  "RemoveUserTask r u tid = r\<lparr>userTasks := remove_user_task (userTasks r) u tid\<rparr>"

text \<open>The unit of work of the in-memory store: all three calls return without effect.\<close>

definition Begin :: "MemoryRepository \<Rightarrow> MemoryRepository" where
  "Begin r = r"

definition Commit :: "MemoryRepository \<Rightarrow> MemoryRepository" where
  "Commit r = r"

definition Rollback :: "MemoryRepository \<Rightarrow> MemoryRepository" where
  "Rollback r = r"

subsection \<open>The snapshot\<close>

text \<open>
  \<^verbatim>\<open>GetSystemState\<close> copies the tasks, turns every non-empty inner index map into a slice
  (kept here as the set of its elements) and copies the counter, the current user and the
  clock. It also collects the valid sessions per user; the verification engine never reads
  them, and the snapshot of the model leaves them out.
\<close>

record SystemState =
  Tasks :: "(TaskID, Task) fmap"
  UserTasks :: "(UserID, TaskID set) fmap"
  NextTaskID :: TaskID
  CurrentUser :: "UserID option"
  Clock :: Time

definition GetSystemState :: "MemoryRepository \<Rightarrow> SystemState" where
  "GetSystemState r =
     \<lparr>Tasks = tasks r,
      UserTasks = fmfilter (\<lambda>u. GetUserTasks r u \<noteq> {}) (userTasks r),
      NextTaskID = nextTaskID r,
      CurrentUser = currentUser r,
      Clock = clock r\<rparr>"

definition state_GetUserTasks :: "SystemState \<Rightarrow> UserID \<Rightarrow> TaskID set" where
  "state_GetUserTasks st u = (case fmlookup (UserTasks st) u of None \<Rightarrow> {} | Some ids \<Rightarrow> ids)"

section \<open>The invariant verification engine (pkg/invariants)\<close>

text \<open>
  Every check of the engine ranges over \<^verbatim>\<open>state.Tasks\<close> and returns an error at the first
  task that fails its test, so a check passes exactly when every task passes the test.
\<close>

definition all_tasks :: "(TaskID \<Rightarrow> Task \<Rightarrow> bool) \<Rightarrow> (TaskID, Task) fmap \<Rightarrow> bool" where
  "all_tasks P m =
     (\<forall>tid \<in> fmdom' m. case fmlookup m tid of None \<Rightarrow> True | Some task \<Rightarrow> P tid task)"

definition checkNoOrphanTasks :: "SystemState \<Rightarrow> bool" where
  "checkNoOrphanTasks st =
     all_tasks (\<lambda>tid task. \<exists>u \<in> fmdom' (UserTasks st). tid \<in> state_GetUserTasks st u) (Tasks st)"

definition checkTaskOwnership :: "SystemState \<Rightarrow> bool" where
  "checkTaskOwnership st =
     all_tasks (\<lambda>tid task. tid \<in> state_GetUserTasks st (Assignee task)) (Tasks st)"

definition checkValidTaskIds :: "SystemState \<Rightarrow> bool" where
  "checkValidTaskIds st =
     all_tasks (\<lambda>tid task. \<not> tid < 1 \<and> \<not> tid \<ge> NextTaskID st) (Tasks st)"

text \<open>
  \<^verbatim>\<open>checkNoDuplicateTaskIds\<close> fails on a task whose map key differs from its \<^verbatim>\<open>ID\<close>
  field, or whose \<^verbatim>\<open>ID\<close> was seen at an earlier task of the loop. The second test runs
  only on tasks that passed the first one, after only such tasks, and map keys are
  distinct: it never fires, in any order of the range. The check passes exactly when every
  key equals the \<^verbatim>\<open>ID\<close> stored under it.
\<close>

definition checkNoDuplicateTaskIds :: "SystemState \<Rightarrow> bool" where
  "checkNoDuplicateTaskIds st = all_tasks (\<lambda>tid task. tid = ID task) (Tasks st)"

definition checkValidStateTransitions :: "SystemState \<Rightarrow> bool" where
  "checkValidStateTransitions st =
     all_tasks (\<lambda>tid task. Status task \<in>
        {StatusPending, StatusInProgress, StatusCompleted, StatusCancelled, StatusBlocked}) (Tasks st)"

definition checkConsistentTimestamps :: "SystemState \<Rightarrow> bool" where
  "checkConsistentTimestamps st =
     all_tasks (\<lambda>tid task. \<not> CreatedAt task > UpdatedAt task) (Tasks st)"

definition checkAuthenticationRequired :: "SystemState \<Rightarrow> bool" where
  "checkAuthenticationRequired st = all_tasks (\<lambda>tid task. CreatedBy task \<noteq> []) (Tasks st)"

subsection \<open>Cycle detection\<close>

text \<open>
  \<^verbatim>\<open>hasCycle\<close> is the recursive depth-first search of the engine; the closure of the same
  name inside \<^verbatim>\<open>checkCyclicDependencies\<close> of the use case has the same body and differs
  only in where the dependencies of a node come from, so the model takes that as the
  argument \<open>deps\<close>. The two Go maps \<^verbatim>\<open>visited\<close> and \<^verbatim>\<open>recStack\<close> are shared by all calls:
  the model passes them along and returns them, as the sets of keys mapped to \<^verbatim>\<open>true\<close>.
  The first argument bounds the depth of the recursion; \<open>None\<close> means the bound was hit.
\<close>

fun hasCycle :: "nat \<Rightarrow> (TaskID \<Rightarrow> TaskID list) \<Rightarrow> TaskID \<Rightarrow> TaskID set \<times> TaskID set
                   \<Rightarrow> (bool \<times> TaskID set \<times> TaskID set) option"
  and hasCycle_range :: "nat \<Rightarrow> (TaskID \<Rightarrow> TaskID list) \<Rightarrow> TaskID list \<Rightarrow> TaskID set \<times> TaskID set
                   \<Rightarrow> (bool \<times> TaskID set \<times> TaskID set) option"
where
  "hasCycle 0 deps taskID (visited, recStack) = None"
| "hasCycle (Suc n) deps taskID (visited, recStack) =
     (case hasCycle_range n deps (deps taskID) (insert taskID visited, insert taskID recStack) of
        None \<Rightarrow> None
      | Some (True, visited', recStack') \<Rightarrow> Some (True, visited', recStack')
      | Some (False, visited', recStack') \<Rightarrow> Some (False, visited', recStack' - {taskID}))"
| "hasCycle_range n deps [] (visited, recStack) = Some (False, visited, recStack)"
| "hasCycle_range n deps (depID # rest) (visited, recStack) =
     (if depID \<notin> visited then
        (case hasCycle n deps depID (visited, recStack) of
           None \<Rightarrow> None
         | Some (True, visited', recStack') \<Rightarrow> Some (True, visited', recStack')
         | Some (False, visited', recStack') \<Rightarrow> hasCycle_range n deps rest (visited', recStack'))
      else if depID \<in> recStack then Some (True, visited, recStack)
      else hasCycle_range n deps rest (visited, recStack))"

text \<open>
  In the engine the dependencies of a node are those of the task stored under it, and a
  node that is no key of \<^verbatim>\<open>state.Tasks\<close> has none. Each start node gets fresh maps. The
  search never goes deeper than the number of stored tasks plus one.
\<close>

definition state_deps :: "(TaskID, Task) fmap \<Rightarrow> TaskID \<Rightarrow> TaskID list" where
  "state_deps m tid = (case fmlookup m tid of None \<Rightarrow> [] | Some task \<Rightarrow> Dependencies task)"

definition cycle_verdict :: "(bool \<times> TaskID set \<times> TaskID set) option \<Rightarrow> bool" where
  "cycle_verdict res = (case res of None \<Rightarrow> True | Some (found, _) \<Rightarrow> found)"

definition checkNoCyclicDependencies :: "SystemState \<Rightarrow> bool" where
  "checkNoCyclicDependencies st =
     (\<forall>tid \<in> fmdom' (Tasks st).
        \<not> cycle_verdict (hasCycle (Suc (card (fmdom' (Tasks st)))) (state_deps (Tasks st)) tid ({}, {})))"

text \<open>
  \<^verbatim>\<open>CheckAllInvariants\<close> runs the eight checks in this order and returns the first
  failure; \<open>None\<close> is Go's \<^verbatim>\<open>nil\<close>.
\<close>

definition CheckAllInvariants :: "SystemState \<Rightarrow> invariant option" where
  "CheckAllInvariants st =
     (if \<not> checkNoOrphanTasks st then Some NoOrphanTasks
      else if \<not> checkTaskOwnership st then Some TaskOwnership
      else if \<not> checkValidTaskIds st then Some ValidTaskIds
      else if \<not> checkNoDuplicateTaskIds st then Some NoDuplicateTaskIds
      else if \<not> checkValidStateTransitions st then Some ValidStateTransitions
      else if \<not> checkConsistentTimestamps st then Some ConsistentTimestamps
      else if \<not> checkNoCyclicDependencies st then Some NoCyclicDependencies
      else if \<not> checkAuthenticationRequired st then Some AuthenticationRequired
      else None)"

section \<open>The operation layer (internal/usecase)\<close>

text \<open>
  Every operation takes the store and returns its result together with the store it leaves
  behind. An operation that returns an error before it wrote anything returns the store it
  was given. A call that reads the clock more than once (\<^verbatim>\<open>CreateTask\<close> for the two
  time stamps of the task, \<^verbatim>\<open>Authenticate\<close> for the validity tests and the two time stamps
  of the session) gets the same reading \<open>now\<close> each time. \<open>post_check\<close> is the pair of
  calls \<^verbatim>\<open>GetSystemState\<close>, \<^verbatim>\<open>CheckAllInvariants\<close> that closes four of the operations.
\<close>

definition Hours24 :: Time where
  "Hours24 = 24 * 3600 * 1000000000"

definition post_check :: "MemoryRepository \<Rightarrow> invariant option" where
  "post_check r = CheckAllInvariants (GetSystemState r)"

text \<open>
  \<^verbatim>\<open>Authenticate\<close>: the token comes from the random generator and is an argument here.
\<close>

definition Authenticate :: "MemoryRepository \<Rightarrow> UserID \<Rightarrow> string \<Rightarrow> Time \<Rightarrow> (error + Session) \<times> MemoryRepository" where
  "Authenticate r userID token now =
     (case GetUser r userID of
        Inl e \<Rightarrow> (Inl UserNotFound, r)
      | Inr user \<Rightarrow>
          if fmdom' (GetSessionByUser r userID now) \<noteq> {} then (Inl SessionAlreadyActive, r)
          else
            let session = \<lparr>Session_UserID = User_ID user, Session_Token = token,
                            Session_Active = True, Session_CreatedAt = now,
                            Session_ExpiresAt = now + Hours24\<rparr>
            in (case CreateSession r session of
                  (Some e, r1) \<Rightarrow> (Inl e, r1)
                | (None, r1) \<Rightarrow>
                    let r2 = SetCurrentUser r1 (Some userID)
                    in (case post_check r2 of
                          Some v \<Rightarrow> (Inl (InvariantViolation v), Rollback r2)
                        | None \<Rightarrow> (Inr session, r2))))"

fun validate_dependencies :: "(TaskID, Task) fmap \<Rightarrow> TaskID list \<Rightarrow> error option" where
  "validate_dependencies allTasks [] = None"
| "validate_dependencies allTasks (depID # rest) =
     (case fmlookup allTasks depID of
        None \<Rightarrow> Some (DependencyMissing depID)
      | Some depTask \<Rightarrow>
          if Status depTask = StatusCancelled then Some (DependencyCancelled depID)
          else validate_dependencies allTasks rest)"

text \<open>
  Inside \<^verbatim>\<open>checkCyclicDependencies\<close> a node that is a key of \<^verbatim>\<open>allTasks\<close> has the
  dependencies stored there; the id of the task being created has the requested ones;
  any other node has none.
\<close>

definition new_task_deps :: "TaskID \<Rightarrow> TaskID list \<Rightarrow> (TaskID, Task) fmap \<Rightarrow> TaskID \<Rightarrow> TaskID list" where
  "new_task_deps newTaskID dependencies allTasks tid =
     (case fmlookup allTasks tid of
        None \<Rightarrow> (if tid = newTaskID then dependencies else [])
      | Some task \<Rightarrow> Dependencies task)"

definition checkCyclicDependencies :: "TaskID \<Rightarrow> TaskID list \<Rightarrow> (TaskID, Task) fmap \<Rightarrow> error option" where
  "checkCyclicDependencies newTaskID dependencies allTasks =
     (if cycle_verdict (hasCycle (Suc (Suc (card (fmdom' allTasks))))
                          (new_task_deps newTaskID dependencies allTasks) newTaskID ({}, {}))
      then Some CyclicDependency else None)"

text \<open>
  The completion test of \<^verbatim>\<open>CreateTask\<close> reads \<^verbatim>\<open>allTasks[depID].Status\<close> for the keys of
  \<^verbatim>\<open>depMap\<close>, all of which passed \<^verbatim>\<open>validate_dependencies\<close> and so are present.
\<close>

definition dep_completed :: "(TaskID, Task) fmap \<Rightarrow> TaskID \<Rightarrow> bool" where
  "dep_completed allTasks depID =
     (case fmlookup allTasks depID of
        None \<Rightarrow> False
      | Some dep \<Rightarrow> Status dep = StatusCompleted)"

definition initial_status :: "TaskID list \<Rightarrow> TaskID list \<Rightarrow> (TaskID, Task) fmap \<Rightarrow> TaskStatus" where
  "initial_status dependencies depMap allTasks =
     (if length dependencies > 0 then
        (if \<not> list_all (dep_completed allTasks) depMap then StatusBlocked else StatusPending)
      else StatusPending)"

definition CreateTask ::
  "MemoryRepository \<Rightarrow> string \<Rightarrow> string \<Rightarrow> Priority \<Rightarrow> UserID \<Rightarrow> Time option \<Rightarrow> Tag list
     \<Rightarrow> TaskID list \<Rightarrow> Time \<Rightarrow> (error + Task) \<times> MemoryRepository" where
  "CreateTask r title description priority assignee dueDate tags dependencies now =
     (case GetCurrentUser r of
        None \<Rightarrow> (Inl AuthRequired, r)
      | Some cu \<Rightarrow>
          let nextID = GetNextTaskID r in
          if nextID > MaxTasks then (Inl MaxTasksReached, r)
          else
            let allTasks = GetAllTasks r in
            (case validate_dependencies allTasks dependencies of
               Some e \<Rightarrow> (Inl e, r)
             | None \<Rightarrow>
                 let depMap = remdups dependencies in
                 (case checkCyclicDependencies nextID depMap allTasks of
                    Some e \<Rightarrow> (Inl e, r)
                  | None \<Rightarrow>
                      let task = \<lparr>ID = nextID, Title = title, Description = description,
                                  Status = initial_status dependencies depMap allTasks,
                                  Priority = priority, Assignee = assignee, CreatedBy = cu,
                                  CreatedAt = now, UpdatedAt = now, DueDate = dueDate,
                                  Tags = tags, Dependencies = depMap\<rparr>
                      in (case Validate task of
                            Some e \<Rightarrow> (Inl (ValidationFailed e), r)
                          | None \<Rightarrow>
                              (case repo_CreateTask r task of
                                 ((Some e, task1), r1) \<Rightarrow> (Inl e, r1)
                               | ((None, task1), r1) \<Rightarrow>
                                   let r2 = IncrementNextTaskID r1
                                   in (case post_check r2 of
                                         Some v \<Rightarrow> (Inl (InvariantViolation v), Rollback r2)
                                       | None \<Rightarrow> (Inr task1, r2)))))))"

definition UpdateTaskStatus :: "MemoryRepository \<Rightarrow> TaskID \<Rightarrow> TaskStatus \<Rightarrow> Time \<Rightarrow> error option \<times> MemoryRepository" where
  "UpdateTaskStatus r taskID newStatus now =
     (case GetCurrentUser r of
        None \<Rightarrow> (Some AuthRequired, r)
      | Some cu \<Rightarrow>
          (case GetTask r taskID of
             Inl e \<Rightarrow> (Some e, r)
           | Inr task \<Rightarrow>
               if taskID \<notin> GetUserTasks r cu then (Some AccessDenied, r)
               else if \<not> IsValidTransition (Status task) newStatus then (Some InvalidTransition, r)
               else if newStatus = StatusInProgress
                       \<and> \<not> list_all (dep_not_incomplete (GetAllTasks r)) (Dependencies task)
                 then (Some DependencyNotCompleted, r)
               else
                 (case repo_UpdateTask r (task\<lparr>Status := newStatus, UpdatedAt := now\<rparr>) of
                    (Some e, r1) \<Rightarrow> (Some e, r1)
                  | (None, r1) \<Rightarrow>
                      (case post_check r1 of
                         Some v \<Rightarrow> (Some (InvariantViolation v), Rollback r1)
                       | None \<Rightarrow> (None, r1)))))"

definition UpdateTaskPriority :: "MemoryRepository \<Rightarrow> TaskID \<Rightarrow> Priority \<Rightarrow> Time \<Rightarrow> error option \<times> MemoryRepository" where
  "UpdateTaskPriority r taskID newPriority now =
     (case GetCurrentUser r of
        None \<Rightarrow> (Some AuthRequired, r)
      | Some cu \<Rightarrow>
          (case GetTask r taskID of
             Inl e \<Rightarrow> (Some e, r)
           | Inr task \<Rightarrow>
               if Assignee task \<noteq> cu then (Some AccessDenied, r)
               else repo_UpdateTask r (task\<lparr>Priority := newPriority, UpdatedAt := now\<rparr>)))"

definition ReassignTask :: "MemoryRepository \<Rightarrow> TaskID \<Rightarrow> UserID \<Rightarrow> Time \<Rightarrow> error option \<times> MemoryRepository" where
  "ReassignTask r taskID newAssignee now =
     (case GetCurrentUser r of
        None \<Rightarrow> (Some AuthRequired, r)
      | Some cu \<Rightarrow>
          (case GetTask r taskID of
             Inl e \<Rightarrow> (Some e, r)
           | Inr task \<Rightarrow>
               if Assignee task \<noteq> cu \<and> CreatedBy task \<noteq> cu then (Some AccessDenied, r)
               else
                 (case GetUser r newAssignee of
                    Inl e \<Rightarrow> (Some e, r)
                  | Inr u \<Rightarrow>
                      let oldAssignee = Assignee task in
                      (case repo_UpdateTask r (task\<lparr>Assignee := newAssignee, UpdatedAt := now\<rparr>) of
                         (Some e, r1) \<Rightarrow> (Some e, r1)
                       | (None, r1) \<Rightarrow>
                           (None, AddUserTask (RemoveUserTask r1 oldAssignee taskID)
                                    newAssignee taskID)))))"

definition UpdateTaskDetails ::
  "MemoryRepository \<Rightarrow> TaskID \<Rightarrow> string \<Rightarrow> string \<Rightarrow> Time option \<Rightarrow> Time
     \<Rightarrow> error option \<times> MemoryRepository" where
  "UpdateTaskDetails r taskID title description dueDate now =
     (case GetCurrentUser r of
        None \<Rightarrow> (Some AuthRequired, r)
      | Some cu \<Rightarrow>
          (case GetTask r taskID of
             Inl e \<Rightarrow> (Some e, r)
           | Inr task \<Rightarrow>
               if Assignee task \<noteq> cu then (Some AccessDenied, r)
               else
                 let task1 = task\<lparr>Title := title, Description := description,
                                   DueDate := dueDate, UpdatedAt := now\<rparr>
                 in (case Validate task1 of
                       Some e \<Rightarrow> (Some (ValidationFailed e), r)
                     | None \<Rightarrow> repo_UpdateTask r task1)))"

definition DeleteTask :: "MemoryRepository \<Rightarrow> TaskID \<Rightarrow> error option \<times> MemoryRepository" where
  "DeleteTask r taskID =
     (case GetCurrentUser r of
        None \<Rightarrow> (Some AuthRequired, r)
      | Some cu \<Rightarrow>
          (case GetTask r taskID of
             Inl e \<Rightarrow> (Some e, r)
           | Inr task \<Rightarrow>
               if Assignee task \<noteq> cu then (Some AccessDenied, r)
               else if \<not> CanDelete task then (Some NotDeletable, r)
               else if length (GetTasksByDependency r taskID) > 0 then (Some HasDependents, r)
               else repo_DeleteTask r taskID))"

text \<open>
  \<^verbatim>\<open>CheckDependencies\<close> fetches the blocked tasks and a copy of all tasks first, then
  walks the blocked ones; every test reads the copy, every write goes to the store. It
  returns the count reached, also next to an error.
\<close>

fun unblock_loop :: "Task list \<Rightarrow> (TaskID, Task) fmap \<Rightarrow> Time \<Rightarrow> nat \<Rightarrow> MemoryRepository
                       \<Rightarrow> (nat \<times> error option) \<times> MemoryRepository" where
  "unblock_loop [] allTasks now unblockedCount r = ((unblockedCount, None), r)"
| "unblock_loop (task # rest) allTasks now unblockedCount r =
     (if ShouldUnblock task allTasks then
        (case repo_UpdateTask r (task\<lparr>Status := StatusPending, UpdatedAt := now\<rparr>) of
           (Some e, r1) \<Rightarrow> ((unblockedCount, Some e), r1)
         | (None, r1) \<Rightarrow> unblock_loop rest allTasks now (unblockedCount + 1) r1)
      else unblock_loop rest allTasks now unblockedCount r)"

definition CheckDependencies :: "MemoryRepository \<Rightarrow> Time \<Rightarrow> (nat \<times> error option) \<times> MemoryRepository" where
  "CheckDependencies r now =
     unblock_loop (GetTasksByStatus r StatusBlocked) (GetAllTasks r) now 0 r"

fun bulk_precheck :: "MemoryRepository \<Rightarrow> UserID \<Rightarrow> TaskStatus \<Rightarrow> TaskID list \<Rightarrow> error option" where
  "bulk_precheck r cu newStatus [] = None"
| "bulk_precheck r cu newStatus (taskID # rest) =
     (case GetTask r taskID of
        Inl e \<Rightarrow> Some e
      | Inr task \<Rightarrow>
          if Assignee task \<noteq> cu then Some AccessDenied
          else if \<not> IsValidTransition (Status task) newStatus then Some InvalidTransition
          else bulk_precheck r cu newStatus rest)"

definition BulkUpdateStatus :: "MemoryRepository \<Rightarrow> TaskID list \<Rightarrow> TaskStatus \<Rightarrow> Time \<Rightarrow> error option \<times> MemoryRepository" where
  "BulkUpdateStatus r taskIDs newStatus now =
     (case GetCurrentUser r of
        None \<Rightarrow> (Some AuthRequired, r)
      | Some cu \<Rightarrow>
          (case bulk_precheck r cu newStatus taskIDs of
             Some e \<Rightarrow> (Some e, r)
           | None \<Rightarrow>
               let r1 = repo_BulkUpdateStatus r taskIDs newStatus now
               in (case post_check r1 of
                     Some v \<Rightarrow> (Some (InvariantViolation v), Rollback r1)
                   | None \<Rightarrow> (None, r1))))"

subsection \<open>A run of the system\<close>

text \<open>
  \<^verbatim>\<open>NewMemoryRepository\<close> starts with empty maps and the id counter at 1. A request names
  one of the nine mutating operations with its arguments; \<open>serve\<close> is the store the
  operation leaves, whatever it returned, and \<open>serve_all\<close> serves a list of requests, each
  with the clock reading of its call.
\<close>

definition NewMemoryRepository :: "Time \<Rightarrow> MemoryRepository" where
  "NewMemoryRepository now =
     \<lparr>tasks = fmempty, users = fmempty, sessions = fmempty, userTasks = fmempty,
      nextTaskID = 1, currentUser = None, clock = now\<rparr>"

datatype request =
    ReqAuthenticate UserID string
  | ReqCreateTask string string Priority UserID "Time option" "Tag list" "TaskID list"
  | ReqUpdateTaskStatus TaskID TaskStatus
  | ReqUpdateTaskPriority TaskID Priority
  | ReqReassignTask TaskID UserID
  | ReqUpdateTaskDetails TaskID string string "Time option"
  | ReqDeleteTask TaskID
  | ReqBulkUpdateStatus "TaskID list" TaskStatus
  | ReqCheckDependencies

fun serve :: "MemoryRepository \<Rightarrow> request \<Rightarrow> Time \<Rightarrow> MemoryRepository" where
  "serve r (ReqAuthenticate userID token) now = snd (Authenticate r userID token now)"
| "serve r (ReqCreateTask title description priority assignee dueDate tags dependencies) now =
     snd (CreateTask r title description priority assignee dueDate tags dependencies now)"
| "serve r (ReqUpdateTaskStatus taskID newStatus) now = snd (UpdateTaskStatus r taskID newStatus now)"
| "serve r (ReqUpdateTaskPriority taskID newPriority) now =
     snd (UpdateTaskPriority r taskID newPriority now)"
| "serve r (ReqReassignTask taskID newAssignee) now = snd (ReassignTask r taskID newAssignee now)"
| "serve r (ReqUpdateTaskDetails taskID title description dueDate) now =
     snd (UpdateTaskDetails r taskID title description dueDate now)"
| "serve r (ReqDeleteTask taskID) now = snd (DeleteTask r taskID)"
| "serve r (ReqBulkUpdateStatus taskIDs newStatus) now = snd (BulkUpdateStatus r taskIDs newStatus now)"
| "serve r ReqCheckDependencies now = snd (CheckDependencies r now)"

fun serve_all :: "MemoryRepository \<Rightarrow> (request \<times> Time) list \<Rightarrow> MemoryRepository" where
  "serve_all r [] = r"
| "serve_all r ((req, now) # rest) = serve_all (serve r req now) rest"

section \<open>Notions of the specification\<close>

text \<open>
  The legal-transition table as the specification lists it (section 4.1), to be compared
  with \<^const>\<open>IsValidTransition\<close>, which is the table of the code.
\<close>

definition spec_legal_transition :: "TaskStatus \<Rightarrow> TaskStatus \<Rightarrow> bool" where
  "spec_legal_transition from to =
     ((from = StatusPending \<and> to = StatusInProgress)
    \<or> (from = StatusPending \<and> to = StatusCancelled)
    \<or> (from = StatusPending \<and> to = StatusBlocked)
    \<or> (from = StatusInProgress \<and> to = StatusCompleted)
    \<or> (from = StatusInProgress \<and> to = StatusCancelled)
    \<or> (from = StatusInProgress \<and> to = StatusBlocked)
    \<or> (from = StatusInProgress \<and> to = StatusPending)
    \<or> (from = StatusBlocked \<and> to = StatusPending)
    \<or> (from = StatusBlocked \<and> to = StatusInProgress)
    \<or> (from = StatusBlocked \<and> to = StatusCancelled))"

text \<open>
  ``Every dependency is completed'', as the specification says it: each dependency id
  names a stored task, and that task has status \<^verbatim>\<open>completed\<close>.
\<close>

definition deps_all_completed :: "(TaskID, Task) fmap \<Rightarrow> Task \<Rightarrow> bool" where
  "deps_all_completed m task =
     (\<forall>d \<in> set (Dependencies task). \<exists>dep. fmlookup m d = Some dep \<and> Status dep = StatusCompleted)"

text \<open>
  The data-model invariants of the specification (section 3 and 4.3) as one predicate of
  the store: the store passes the engine, every dependency id names a stored task, and the
  id counter is positive. \<open>clock_ahead\<close> says that no stored time stamp lies after the
  reading \<open>now\<close>, which is what a monotonic clock gives. \<open>task_ok\<close> and \<open>acyclic_check\<close>
  spell out what passing the engine means for one stored task and for the dependency graph.
\<close>

definition dependencies_stored :: "(TaskID, Task) fmap \<Rightarrow> bool" where
  "dependencies_stored m =
     all_tasks (\<lambda>k t. \<forall>d \<in> set (Dependencies t). fmlookup m d \<noteq> None) m"

definition store_ok :: "MemoryRepository \<Rightarrow> bool" where
  "store_ok r = (post_check r = None \<and> dependencies_stored (tasks r) \<and> 1 \<le> nextTaskID r)"

definition clock_ahead :: "MemoryRepository \<Rightarrow> Time \<Rightarrow> bool" where
  "clock_ahead r now = all_tasks (\<lambda>k t. UpdatedAt t \<le> now) (tasks r)"

definition task_ok :: "MemoryRepository \<Rightarrow> TaskID \<Rightarrow> Task \<Rightarrow> bool" where
  "task_ok r k t =
     ((\<exists>u. k \<in> GetUserTasks r u) \<and> k \<in> GetUserTasks r (Assignee t)
      \<and> 1 \<le> k \<and> k < nextTaskID r \<and> k = ID t \<and> isValidStatus (Status t)
      \<and> CreatedAt t \<le> UpdatedAt t \<and> CreatedBy t \<noteq> [])"

definition acyclic_check :: "(TaskID, Task) fmap \<Rightarrow> bool" where
  "acyclic_check m =
     (\<forall>tid \<in> fmdom' m.
        \<not> cycle_verdict (hasCycle (Suc (card (fmdom' m))) (state_deps m) tid ({}, {})))"

text \<open>
  \<open>store_inv r now\<close> joins the two; \<open>touched now t t'\<close> relates a stored task to a version of
  it that an update operation may write back: identity, assignee, creator, creation time
  and dependencies are those of \<open>t\<close>, the status is one of the five, and the modification
  time is either that of \<open>t\<close> or the reading \<open>now\<close>.
\<close>

definition touched :: "Time \<Rightarrow> Task \<Rightarrow> Task \<Rightarrow> bool" where
  "touched now t t' =
     (ID t' = ID t \<and> Assignee t' = Assignee t \<and> CreatedBy t' = CreatedBy t
      \<and> CreatedAt t' = CreatedAt t \<and> Dependencies t' = Dependencies t
      \<and> isValidStatus (Status t') \<and> (UpdatedAt t' = UpdatedAt t \<or> UpdatedAt t' = now))"

definition store_inv :: "MemoryRepository \<Rightarrow> Time \<Rightarrow> bool" where
  "store_inv r now = (store_ok r \<and> clock_ahead r now)"

section \<open>Example stores\<close>

definition user_alice :: User where
  "user_alice = \<lparr>User_ID = ''alice'', User_Name = ''Alice'', User_Email = ''alice@example.com'',
                 User_JoinedAt = 0\<rparr>"

definition user_bob :: User where
  "user_bob = \<lparr>User_ID = ''bob'', User_Name = ''Bob'', User_Email = ''bob@example.com'',
               User_JoinedAt = 0\<rparr>"

definition task_A :: Task where
  "task_A = \<lparr>ID = 1, Title = ''A'', Description = ''first'', Status = StatusPending,
             Priority = PriorityLow, Assignee = ''alice'', CreatedBy = ''alice'',
             CreatedAt = 5, UpdatedAt = 5, DueDate = None, Tags = [], Dependencies = []\<rparr>"

definition task_B :: Task where
  "task_B = \<lparr>ID = 2, Title = ''B'', Description = ''second'', Status = StatusBlocked,
             Priority = PriorityLow, Assignee = ''alice'', CreatedBy = ''alice'',
             CreatedAt = 6, UpdatedAt = 6, DueDate = None, Tags = [], Dependencies = [1]\<rparr>"

text \<open>
  The store after alice logged in, created A without dependencies and then B depending on A.
\<close>

definition store_AB :: MemoryRepository where
  "store_AB = \<lparr>tasks = fmupd 2 task_B (fmupd 1 task_A fmempty),
               users = fmupd ''bob'' user_bob (fmupd ''alice'' user_alice fmempty),
               sessions = fmempty,
               userTasks = fmupd ''alice'' {1, 2} fmempty,
               nextTaskID = 3, currentUser = Some ''alice'', clock = 0\<rparr>"

text \<open>
  The same store after alice also created C and assigned it to bob.
\<close>

definition task_C :: Task where
  "task_C = \<lparr>ID = 3, Title = ''C'', Description = ''third'', Status = StatusPending,
             Priority = PriorityLow, Assignee = ''bob'', CreatedBy = ''alice'',
             CreatedAt = 7, UpdatedAt = 7, DueDate = None, Tags = [], Dependencies = []\<rparr>"

definition store_ABC :: MemoryRepository where
  "store_ABC = \<lparr>tasks = fmupd 3 task_C (fmupd 2 task_B (fmupd 1 task_A fmempty)),
                users = fmupd ''bob'' user_bob (fmupd ''alice'' user_alice fmempty),
                sessions = fmempty,
                userTasks = fmupd ''bob'' {3} (fmupd ''alice'' {1, 2} fmempty),
                nextTaskID = 4, currentUser = Some ''alice'', clock = 0\<rparr>"

text \<open>
  A store that the repository can hold and that fails the engine: task 4 has no creator
  (the repository's own \<^verbatim>\<open>CreateTask\<close> stores any task it is handed). Task 1 is
  completed, task 2 is blocked on it, task 3 is cancelled and nothing depends on it.
\<close>

definition task_done :: Task where
  "task_done = \<lparr>ID = 1, Title = ''A'', Description = ''first'', Status = StatusCompleted,
                Priority = PriorityLow, Assignee = ''alice'', CreatedBy = ''alice'',
                CreatedAt = 5, UpdatedAt = 8, DueDate = None, Tags = [], Dependencies = []\<rparr>"

definition task_old :: Task where
  "task_old = \<lparr>ID = 3, Title = ''C'', Description = ''third'', Status = StatusCancelled,
               Priority = PriorityLow, Assignee = ''alice'', CreatedBy = ''alice'',
               CreatedAt = 7, UpdatedAt = 7, DueDate = None, Tags = [], Dependencies = []\<rparr>"

definition task_nocreator :: Task where
  "task_nocreator = \<lparr>ID = 4, Title = ''D'', Description = ''fourth'', Status = StatusPending,
                     Priority = PriorityLow, Assignee = ''alice'', CreatedBy = [],
                     CreatedAt = 7, UpdatedAt = 7, DueDate = None, Tags = [], Dependencies = []\<rparr>"

definition store_bad :: MemoryRepository where
  "store_bad = \<lparr>tasks = fmupd 4 task_nocreator (fmupd 3 task_old (fmupd 2 task_B
                          (fmupd 1 task_done fmempty))),
                users = fmupd ''bob'' user_bob (fmupd ''alice'' user_alice fmempty),
                sessions = fmempty,
                userTasks = fmupd ''alice'' {1, 2, 3, 4} fmempty,
                nextTaskID = 5, currentUser = Some ''alice'', clock = 0\<rparr>"



text \<open>
  The store of the example in the specification after A went through \<^verbatim>\<open>in_progress\<close> to
  \<^verbatim>\<open>completed\<close>: task 1 is completed, task 2 is still blocked on it, and task 3 (cancelled)
  has no dependents.
\<close>

definition store_work :: MemoryRepository where
  "store_work = \<lparr>tasks = fmupd 3 task_old (fmupd 2 task_B (fmupd 1 task_done fmempty)),
                 users = fmupd ''bob'' user_bob (fmupd ''alice'' user_alice fmempty),
                 sessions = fmempty,
                 userTasks = fmupd ''alice'' {1, 2, 3} fmempty,
                 nextTaskID = 4, currentUser = Some ''alice'', clock = 0\<rparr>"



section \<open>Auxiliary facts\<close>

declare fmfilter_cong [cong del]

lemma all_tasks_iff:
  "all_tasks P m \<longleftrightarrow> (\<forall>tid task. fmlookup m tid = Some task \<longrightarrow> P tid task)"
  unfolding all_tasks_def
  by (auto simp: fmlookup_dom'_iff split: option.splits)

lemma snapshot_user_tasks:
  "state_GetUserTasks (GetSystemState r) u = GetUserTasks r u"
  by (simp add: state_GetUserTasks_def GetSystemState_def GetUserTasks_def split: option.splits)

lemma post_check_None_iff:
  "post_check r = None \<longleftrightarrow>
     checkNoOrphanTasks (GetSystemState r) \<and> checkTaskOwnership (GetSystemState r)
     \<and> checkValidTaskIds (GetSystemState r) \<and> checkNoDuplicateTaskIds (GetSystemState r)
     \<and> checkValidStateTransitions (GetSystemState r) \<and> checkConsistentTimestamps (GetSystemState r)
     \<and> checkNoCyclicDependencies (GetSystemState r) \<and> checkAuthenticationRequired (GetSystemState r)"
  by (simp add: post_check_def CheckAllInvariants_def)

lemma state_deps_same_dependencies:
  assumes "fmlookup m k = Some task" "Dependencies task' = Dependencies task"
  shows "state_deps (fmupd k task' m) = state_deps m"
  using assms by (auto simp: state_deps_def fun_eq_iff)

lemma fmdom'_fmupd_present:
  "fmlookup m k = Some v \<Longrightarrow> fmdom' (fmupd k v' m) = fmdom' m"
  by (auto simp: fmdom'I)

lemma IsValidTransition_valid_target:
  "IsValidTransition from to \<Longrightarrow>
     to \<in> {StatusPending, StatusInProgress, StatusCompleted, StatusCancelled, StatusBlocked}"
  by (auto simp: IsValidTransition_def ValidTransitions_def)

text \<open>
  Writing a legal status and a time stamp not before the creation time into a stored task
  keeps a store that passes the engine passing it.
\<close>

lemma post_check_status_update:
  assumes ok: "post_check r = None"
    and look: "fmlookup (tasks r) k = Some task"
    and st: "to \<in> {StatusPending, StatusInProgress, StatusCompleted, StatusCancelled, StatusBlocked}"
    and tm: "CreatedAt task \<le> now"
  shows "post_check (r\<lparr>tasks := fmupd k (task\<lparr>Status := to, UpdatedAt := now\<rparr>) (tasks r)\<rparr>) = None"
proof -
  let ?t' = "task\<lparr>Status := to, UpdatedAt := now\<rparr>"
  let ?r' = "r\<lparr>tasks := fmupd k ?t' (tasks r)\<rparr>"
  have ut: "UserTasks (GetSystemState ?r') = UserTasks (GetSystemState r)"
    by (simp add: GetSystemState_def GetUserTasks_def)
  have tk: "Tasks (GetSystemState ?r') = fmupd k ?t' (tasks r)" "Tasks (GetSystemState r) = tasks r"
    by (simp_all add: GetSystemState_def)
  have nx: "NextTaskID (GetSystemState ?r') = NextTaskID (GetSystemState r)"
    by (simp add: GetSystemState_def)
  have gu: "\<And>u. state_GetUserTasks (GetSystemState ?r') u = state_GetUserTasks (GetSystemState r) u"
    by (simp add: state_GetUserTasks_def ut)
  from ok have inv:
    "checkNoOrphanTasks (GetSystemState r)" "checkTaskOwnership (GetSystemState r)"
    "checkValidTaskIds (GetSystemState r)" "checkNoDuplicateTaskIds (GetSystemState r)"
    "checkValidStateTransitions (GetSystemState r)" "checkConsistentTimestamps (GetSystemState r)"
    "checkNoCyclicDependencies (GetSystemState r)" "checkAuthenticationRequired (GetSystemState r)"
    by (simp_all add: post_check_None_iff)
  have 1: "checkNoOrphanTasks (GetSystemState ?r')"
    using inv(1) look unfolding checkNoOrphanTasks_def all_tasks_iff tk ut gu
    by (auto split: if_splits)
  have 2: "checkTaskOwnership (GetSystemState ?r')"
    using inv(2) look unfolding checkTaskOwnership_def all_tasks_iff tk gu
    by (auto split: if_splits)
  have 3: "checkValidTaskIds (GetSystemState ?r')"
    using inv(3) look unfolding checkValidTaskIds_def all_tasks_iff tk nx
    by (auto split: if_splits)
  have 4: "checkNoDuplicateTaskIds (GetSystemState ?r')"
    using inv(4) look unfolding checkNoDuplicateTaskIds_def all_tasks_iff tk
    by (auto split: if_splits)
  have 5: "checkValidStateTransitions (GetSystemState ?r')"
    using inv(5) look st unfolding checkValidStateTransitions_def all_tasks_iff tk
    by (auto split: if_splits)
  have 6: "checkConsistentTimestamps (GetSystemState ?r')"
    using inv(6) look tm unfolding checkConsistentTimestamps_def all_tasks_iff tk
    by (auto split: if_splits)
  have dm: "fmdom' (fmupd k ?t' (tasks r)) = fmdom' (tasks r)"
    using look by (rule fmdom'_fmupd_present)
  have sd: "state_deps (fmupd k ?t' (tasks r)) = state_deps (tasks r)"
    using look by (simp add: state_deps_same_dependencies)
  have 7: "checkNoCyclicDependencies (GetSystemState ?r')"
    using inv(7) unfolding checkNoCyclicDependencies_def tk dm sd .
  have 8: "checkAuthenticationRequired (GetSystemState ?r')"
    using inv(8) look unfolding checkAuthenticationRequired_def all_tasks_iff tk
    by (auto split: if_splits)
  show ?thesis
    using 1 2 3 4 5 6 7 8 by (simp add: post_check_None_iff)
qed

lemma IsValidTransition_iff_spec:
  "IsValidTransition from to \<longleftrightarrow> spec_legal_transition from to"
  unfolding IsValidTransition_def ValidTransitions_def spec_legal_transition_def
  by (simp only: list.set insert_iff empty_iff prod.inject simp_thms)

lemma deps_all_completed_imp:
  "deps_all_completed m task \<Longrightarrow> list_all (dep_not_incomplete m) (Dependencies task)"
  by (auto simp: deps_all_completed_def list_all_iff dep_not_incomplete_def)

lemma owner_in_index:
  assumes "post_check r = None" "fmlookup (tasks r) taskID = Some task"
  shows "taskID \<in> GetUserTasks r (Assignee task)"
proof -
  from assms(1) have "checkTaskOwnership (GetSystemState r)"
    by (simp add: post_check_None_iff)
  then show ?thesis
    using assms(2) unfolding checkTaskOwnership_def all_tasks_iff snapshot_user_tasks
    by (simp add: GetSystemState_def)
qed

lemma key_is_ID:
  assumes "post_check r = None" "fmlookup (tasks r) taskID = Some task"
  shows "ID task = taskID"
proof -
  from assms(1) have "checkNoDuplicateTaskIds (GetSystemState r)"
    by (simp add: post_check_None_iff)
  then show ?thesis
    using assms(2) unfolding checkNoDuplicateTaskIds_def all_tasks_iff
    by (simp add: GetSystemState_def)
qed

lemma UpdateTaskStatus_accept:
  assumes auth: "currentUser r = Some cu"
    and look: "fmlookup (tasks r) taskID = Some task"
    and own: "Assignee task = cu"
    and consistent: "post_check r = None"
    and clock: "CreatedAt task \<le> now"
    and legal: "IsValidTransition (Status task) to"
    and deps: "to = StatusInProgress \<longrightarrow> list_all (dep_not_incomplete (tasks r)) (Dependencies task)"
  shows "UpdateTaskStatus r taskID to now =
          (None, r\<lparr>tasks := fmupd taskID (task\<lparr>Status := to, UpdatedAt := now\<rparr>) (tasks r)\<rparr>)"
proof -
  have idx: "taskID \<in> GetUserTasks r cu"
    using owner_in_index[OF consistent look] own by simp
  have key: "ID task = taskID"
    by (rule key_is_ID[OF consistent look])
  have upd: "repo_UpdateTask r (task\<lparr>Status := to, UpdatedAt := now\<rparr>)
             = (None, r\<lparr>tasks := fmupd taskID (task\<lparr>Status := to, UpdatedAt := now\<rparr>) (tasks r)\<rparr>)"
    using look key by (simp add: repo_UpdateTask_def)
  have post: "post_check (r\<lparr>tasks := fmupd taskID (task\<lparr>Status := to, UpdatedAt := now\<rparr>) (tasks r)\<rparr>) = None"
    by (rule post_check_status_update[OF consistent look IsValidTransition_valid_target[OF legal] clock])
  show ?thesis
    unfolding UpdateTaskStatus_def
    using auth look idx legal deps upd post
    by (simp add: GetCurrentUser_def GetTask_def GetAllTasks_def Rollback_def)
qed

lemma UpdateTaskStatus_reject:
  assumes auth: "currentUser r = Some cu"
    and look: "fmlookup (tasks r) taskID = Some task"
    and own: "Assignee task = cu"
    and consistent: "post_check r = None"
    and illegal: "\<not> IsValidTransition (Status task) to"
  shows "UpdateTaskStatus r taskID to now = (Some InvalidTransition, r)"
proof -
  have idx: "taskID \<in> GetUserTasks r cu"
    using owner_in_index[OF consistent look] own by simp
  show ?thesis
    unfolding UpdateTaskStatus_def
    using auth look idx illegal
    by (simp add: GetCurrentUser_def GetTask_def)
qed

subsection \<open>Listing the tasks\<close>

lemma set_task_values:
  "set (task_values m) = {t. \<exists>k. fmlookup m k = Some t}"
proof -
  have "set (task_values m) = (\<lambda>k. the (fmlookup m k)) ` fset (fmdom m)"
    by (simp add: task_values_def sorted_list_of_fmap_def image_image)
  also have "\<dots> = {t. \<exists>k. fmlookup m k = Some t}"
    by (force simp: fmlookup_dom_iff image_iff)
  finally show ?thesis .
qed

subsection \<open>The depth bound of the cycle search\<close>

text \<open>
  The search marks a node before it descends, and only a stored task (or, in the use case,
  the new task) has dependencies to descend into. So the depth never exceeds the number of
  such nodes, and with the bounds of \<^const>\<open>checkNoCyclicDependencies\<close> and
  \<^const>\<open>checkCyclicDependencies\<close> the search always returns a verdict: the case \<open>None\<close>
  of \<^const>\<open>cycle_verdict\<close> does not occur.
\<close>

lemma card_Diff_insert_less:
  assumes "finite N" "t \<in> N" "t \<notin> vis" "card (N - vis) < Suc n"
  shows "card (N - insert t vis) < n"
proof -
  have "t \<in> N - vis" using assms by simp
  moreover have "N - insert t vis = (N - vis) - {t}" by auto
  ultimately have "card (N - insert t vis) = card (N - vis) - 1"
    using assms(1) by (simp add: card_Diff_singleton)
  moreover have "card (N - vis) > 0"
    using \<open>t \<in> N - vis\<close> assms(1) by (metis card_gt_0_iff empty_iff finite_Diff)
  ultimately show ?thesis using assms(4) by linarith
qed

lemma card_Diff_mono_vis:
  assumes "finite N" "vis \<subseteq> v" "card (N - vis) < n"
  shows "card (N - v) < n"
proof -
  have "N - v \<subseteq> N - vis" using assms(2) by auto
  then have "card (N - v) \<le> card (N - vis)"
    using assms(1) by (simp add: card_mono)
  with assms(3) show ?thesis by linarith
qed

lemma hasCycle_fuel:
  assumes fin: "finite N"
  shows "\<forall>t. deps t \<noteq> [] \<longrightarrow> t \<in> N \<Longrightarrow> card (N - fst st) < n \<Longrightarrow> t \<notin> fst st
           \<Longrightarrow> \<exists>b v r. hasCycle n deps t st = Some (b, v, r) \<and> fst st \<subseteq> v"
    and "\<forall>t. deps t \<noteq> [] \<longrightarrow> t \<in> N \<Longrightarrow> card (N - fst st) < n
           \<Longrightarrow> \<exists>b v r. hasCycle_range n deps ds st = Some (b, v, r) \<and> fst st \<subseteq> v"
proof (induction n deps t st and n deps ds st rule: hasCycle_hasCycle_range.induct)
  case (1 deps taskID visited recStack)
  then show ?case by simp
next
  case (2 n deps taskID visited recStack)
  show ?case
  proof (cases "deps taskID = []")
    case True
    then show ?thesis by auto
  next
    case False
    with "2.prems" have "taskID \<in> N" "taskID \<notin> visited"
      by auto
    moreover have "card (N - visited) < Suc n"
      using "2.prems" by simp
    ultimately have "card (N - insert taskID visited) < n"
      using fin by (rule_tac card_Diff_insert_less)
    with "2.IH" "2.prems"(1) obtain b v r where
      "hasCycle_range n deps (deps taskID) (insert taskID visited, insert taskID recStack) = Some (b, v, r)"
      "insert taskID visited \<subseteq> v"
      by auto
    then show ?thesis
      by (cases b) auto
  qed
next
  case (3 n deps visited recStack)
  then show ?case by auto
next
  case (4 n deps depID rest visited recStack)
  show ?case
  proof (cases "depID \<notin> visited")
    case True
    with "4.IH"(1) "4.prems" obtain b v r where
      run: "hasCycle n deps depID (visited, recStack) = Some (b, v, r)" and sub: "visited \<subseteq> v"
      by auto
    show ?thesis
    proof (cases b)
      case True
      with run sub \<open>depID \<notin> visited\<close> show ?thesis by auto
    next
      case False
      have "card (N - v) < n"
        using card_Diff_mono_vis[OF fin sub] "4.prems" by simp
      moreover from False have bF: "b = False"
        by simp
      moreover note "4.IH"(2)[OF \<open>depID \<notin> visited\<close> run refl bF refl "4.prems"(1)]
      ultimately
      obtain b' v' r' where "hasCycle_range n deps rest (v, r) = Some (b', v', r')" "v \<subseteq> v'"
        by auto
      with run sub False \<open>depID \<notin> visited\<close> show ?thesis by auto
    qed
  next
    case False
    then show ?thesis
      using "4.IH"(3) "4.prems" by auto
  qed
qed

lemma engine_search_returns:
  "\<exists>b v r. hasCycle (Suc (card (fmdom' m))) (state_deps m) tid ({}, {}) = Some (b, v, r)"
proof -
  have fin: "finite (fmdom' m)"
    by simp
  have sup: "\<forall>t. state_deps m t \<noteq> [] \<longrightarrow> t \<in> fmdom' m"
    by (auto simp: state_deps_def fmdom'I split: option.splits)
  have "card (fmdom' m - fst ({}, {})) < Suc (card (fmdom' m))" "tid \<notin> fst ({}, {})"
    by simp_all
  from hasCycle_fuel(1)[OF fin sup this] show ?thesis
    by blast
qed

lemma usecase_search_returns:
  "\<exists>b v r. hasCycle (Suc (Suc (card (fmdom' m)))) (new_task_deps newID ds m) newID ({}, {})
             = Some (b, v, r)"
proof -
  let ?N = "insert newID (fmdom' m)"
  have fin: "finite ?N"
    by simp
  have sup: "\<forall>t. new_task_deps newID ds m t \<noteq> [] \<longrightarrow> t \<in> ?N"
    by (auto simp: new_task_deps_def fmdom'I split: option.splits if_splits)
  have "card ?N \<le> Suc (card (fmdom' m))"
    by (simp add: card_insert_if)
  then have "card (?N - fst ({}, {})) < Suc (Suc (card (fmdom' m)))" "newID \<notin> fst ({}, {})"
    by simp_all
  from hasCycle_fuel(1)[OF fin sup this] show ?thesis
    by blast
qed

section \<open>The claims\<close>

subsection \<open>C1: status updates follow the transition table\<close>

text \<open>
  Claim C1. In a store that passes the invariant engine, let the authenticated current user
  be the assignee of a stored task, and let the clock reading be no earlier than the task's
  creation time. An \<^verbatim>\<open>UpdateTaskStatus\<close> request to status \<open>to\<close> succeeds and leaves the
  task with status \<open>to\<close> if the pair (current status, \<open>to\<close>) is one of the ten legal
  transitions and, for \<open>to\<close> = \<^verbatim>\<open>in_progress\<close>, every dependency is completed. For every
  pair outside the table the request fails and returns the store unchanged; this includes
  the self-transition and every request on a task that is completed or cancelled.
\<close>

theorem C1_update_status_follows_table:
  assumes auth: "currentUser r = Some cu"
    and look: "fmlookup (tasks r) taskID = Some task"
    and own: "Assignee task = cu"
    and consistent: "post_check r = None"
    and clock: "CreatedAt task \<le> now"
  shows "(spec_legal_transition (Status task) to
            \<and> (to = StatusInProgress \<longrightarrow> deps_all_completed (tasks r) task)
          \<longrightarrow> (\<exists>r' task'. UpdateTaskStatus r taskID to now = (None, r')
                  \<and> fmlookup (tasks r') taskID = Some task' \<and> Status task' = to))
       \<and> (\<not> spec_legal_transition (Status task) to
          \<longrightarrow> UpdateTaskStatus r taskID to now = (Some InvalidTransition, r))
       \<and> UpdateTaskStatus r taskID (Status task) now = (Some InvalidTransition, r)
       \<and> (Status task = StatusCompleted \<or> Status task = StatusCancelled
          \<longrightarrow> UpdateTaskStatus r taskID to now = (Some InvalidTransition, r))"
proof (intro conjI impI)
  assume a: "spec_legal_transition (Status task) to
            \<and> (to = StatusInProgress \<longrightarrow> deps_all_completed (tasks r) task)"
  then have legal: "IsValidTransition (Status task) to"
    by (simp add: IsValidTransition_iff_spec)
  from a have deps: "to = StatusInProgress \<longrightarrow> list_all (dep_not_incomplete (tasks r)) (Dependencies task)"
    by (blast intro: deps_all_completed_imp)
  show "\<exists>r' task'. UpdateTaskStatus r taskID to now = (None, r')
          \<and> fmlookup (tasks r') taskID = Some task' \<and> Status task' = to"
    unfolding UpdateTaskStatus_accept[OF auth look own consistent clock legal deps]
    by simp
next
  assume "\<not> spec_legal_transition (Status task) to"
  then have "\<not> IsValidTransition (Status task) to"
    by (simp add: IsValidTransition_iff_spec)
  then show "UpdateTaskStatus r taskID to now = (Some InvalidTransition, r)"
    by (rule UpdateTaskStatus_reject[OF auth look own consistent])
next
  have "\<not> IsValidTransition (Status task) (Status task)"
    unfolding IsValidTransition_iff_spec spec_legal_transition_def by auto
  then show "UpdateTaskStatus r taskID (Status task) now = (Some InvalidTransition, r)"
    by (rule UpdateTaskStatus_reject[OF auth look own consistent])
next
  assume "Status task = StatusCompleted \<or> Status task = StatusCancelled"
  then have "\<not> IsValidTransition (Status task) to"
    unfolding IsValidTransition_iff_spec spec_legal_transition_def by auto
  then show "UpdateTaskStatus r taskID to now = (Some InvalidTransition, r)"
    by (rule UpdateTaskStatus_reject[OF auth look own consistent])
qed

theorem C1_update_status_follows_table_witness:
  "currentUser store_AB = Some ''alice''
   \<and> fmlookup (tasks store_AB) 1 = Some task_A
   \<and> Assignee task_A = ''alice''
   \<and> post_check store_AB = None
   \<and> CreatedAt task_A \<le> 10
   \<and> spec_legal_transition (Status task_A) StatusInProgress
   \<and> deps_all_completed (tasks store_AB) task_A
   \<and> (\<exists>r' task'. UpdateTaskStatus store_AB 1 StatusInProgress 10 = (None, r')
          \<and> fmlookup (tasks r') 1 = Some task' \<and> Status task' = StatusInProgress)
   \<and> \<not> spec_legal_transition (Status task_A) StatusCompleted
   \<and> UpdateTaskStatus store_AB 1 StatusCompleted 10 = (Some InvalidTransition, store_AB)"
proof -
  have h1: "currentUser store_AB = Some ''alice''"
    by (simp add: store_AB_def)
  have h2: "fmlookup (tasks store_AB) 1 = Some task_A"
    by (simp add: store_AB_def)
  have h3: "Assignee task_A = ''alice''"
    by (simp add: task_A_def)
  have h4: "post_check store_AB = None"
    by code_simp
  have h5: "CreatedAt task_A \<le> 10"
    by (simp add: task_A_def)
  have l1: "spec_legal_transition (Status task_A) StatusInProgress"
    by (simp add: spec_legal_transition_def task_A_def)
  have l2: "deps_all_completed (tasks store_AB) task_A"
    by (simp add: deps_all_completed_def task_A_def)
  have l3: "\<not> spec_legal_transition (Status task_A) StatusCompleted"
    by (simp add: spec_legal_transition_def task_A_def)
  note inst = C1_update_status_follows_table[OF h1 h2 h3 h4 h5]
  from inst[of StatusInProgress] l1 l2
  have c1: "\<exists>r' task'. UpdateTaskStatus store_AB 1 StatusInProgress 10 = (None, r')
          \<and> fmlookup (tasks r') 1 = Some task' \<and> Status task' = StatusInProgress"
    by blast
  from inst[of StatusCompleted] l3
  have c2: "UpdateTaskStatus store_AB 1 StatusCompleted 10 = (Some InvalidTransition, store_AB)"
    by blast
  show ?thesis
    using h1 h2 h3 h4 h5 l1 l2 l3 c1 c2 by blast
qed

subsection \<open>C2: entering in_progress and the dependencies\<close>

text \<open>A single status request that reaches \<^verbatim>\<open>in_progress\<close> has passed the dependency test.\<close>

lemma UpdateTaskStatus_checks_dependencies:
  assumes "UpdateTaskStatus r taskID StatusInProgress now = (None, r')"
  shows "\<exists>task. fmlookup (tasks r) taskID = Some task
           \<and> list_all (dep_not_incomplete (tasks r)) (Dependencies task)"
  using assms
  unfolding UpdateTaskStatus_def GetCurrentUser_def GetTask_def GetAllTasks_def
  by (auto split: option.splits if_splits prod.splits)

text \<open>
  Claim C2 says that no operation moves a task to \<^verbatim>\<open>in_progress\<close> while one of its
  dependencies is not completed. \<^verbatim>\<open>UpdateTaskStatus\<close> refuses such a request, but
  \<^verbatim>\<open>BulkUpdateStatus\<close> tests only existence, ownership and the transition table. In the
  store where B (blocked) depends on A (pending), the bulk request for B succeeds and
  leaves B in progress with A still pending; the single request for B is refused.
\<close>

theorem C2_bulk_update_ignores_dependencies:
  "fst (BulkUpdateStatus store_AB [2] StatusInProgress 10) = None
   \<and> fmlookup (tasks (snd (BulkUpdateStatus store_AB [2] StatusInProgress 10))) 2
       = Some (task_B\<lparr>Status := StatusInProgress, UpdatedAt := 10\<rparr>)
   \<and> Dependencies task_B = [1]
   \<and> fmlookup (tasks (snd (BulkUpdateStatus store_AB [2] StatusInProgress 10))) 1 = Some task_A
   \<and> Status task_A = StatusPending
   \<and> UpdateTaskStatus store_AB 2 StatusInProgress 10 = (Some DependencyNotCompleted, store_AB)"
  by code_simp

subsection \<open>C3: which operations run the engine\<close>

text \<open>
  The statement for C3 speaks of the stores that the operations reach; it is at the end of
  the theory, after the invariant of these stores.
\<close>

subsection \<open>C4: who may reassign\<close>

text \<open>
  When \<^verbatim>\<open>ReassignTask\<close> fails on a task that is stored under its own id: no current user,
  a current user who is neither assignee nor creator, or an unknown new assignee.
\<close>

lemma ReassignTask_fails_iff:
  assumes "fmlookup (tasks r) taskID = Some task" "ID task = taskID"
  shows "fst (ReassignTask r taskID newAssignee now) \<noteq> None \<longleftrightarrow>
           currentUser r = None
         \<or> (\<exists>cu. currentUser r = Some cu \<and> Assignee task \<noteq> cu \<and> CreatedBy task \<noteq> cu)
         \<or> fmlookup (users r) newAssignee = None"
  using assms
  unfolding ReassignTask_def GetCurrentUser_def GetTask_def GetUser_def
  by (auto simp: repo_UpdateTask_def Let_def split: option.splits if_splits prod.splits)

text \<open>
  Claim C4 says that \<^verbatim>\<open>ReassignTask\<close> fails whenever the current user is not the task's
  assignee. The permission test of the code lets the creator through as well: alice, who
  created C and assigned it to bob, takes it back.
\<close>

theorem C4_creator_may_reassign:
  "currentUser store_ABC = Some ''alice''
   \<and> fmlookup (tasks store_ABC) 3 = Some task_C
   \<and> Assignee task_C = ''bob''
   \<and> CreatedBy task_C = ''alice''
   \<and> fst (ReassignTask store_ABC 3 ''alice'' 10) = None
   \<and> fmlookup (tasks (snd (ReassignTask store_ABC 3 ''alice'' 10))) 3
        = Some (task_C\<lparr>Assignee := ''alice'', UpdatedAt := 10\<rparr>)
   \<and> GetUserTasks (snd (ReassignTask store_ABC 3 ''alice'' 10)) ''alice'' = {1, 2, 3}
   \<and> GetUserTasks (snd (ReassignTask store_ABC 3 ''alice'' 10)) ''bob'' = {}"
  by code_simp

subsection \<open>C5: what a failed postcondition check leaves behind\<close>

lemma bulk_precheck_None:
  "bulk_precheck r cu st ids = None \<Longrightarrow> \<forall>tid \<in> set ids. \<exists>t. fmlookup (tasks r) tid = Some t"
  by (induction ids) (auto simp: GetTask_def split: option.splits if_splits sum.splits)

lemma bulk_set_status_lookup:
  "fmlookup (bulk_set_status st now tid m) k =
     (if k = tid then map_option (\<lambda>t. t\<lparr>Status := st, UpdatedAt := now\<rparr>) (fmlookup m k)
      else fmlookup m k)"
  by (simp add: bulk_set_status_def split: option.splits)

lemma fold_bulk_set_status_lookup:
  "fmlookup (fold (bulk_set_status st now) ids m) k =
     (if k \<in> set ids then map_option (\<lambda>t. t\<lparr>Status := st, UpdatedAt := now\<rparr>) (fmlookup m k)
      else fmlookup m k)"
proof (induction ids arbitrary: m)
  case Nil
  then show ?case by simp
next
  case (Cons a ids)
  show ?case
    by (cases "fmlookup m k") (auto simp: Cons.IH bulk_set_status_lookup)
qed

lemma validate_dependencies_not_violation:
  "validate_dependencies m ds \<noteq> Some (InvariantViolation v)"
  by (induction ds) (auto split: option.splits)

lemma checkCyclicDependencies_not_violation:
  "checkCyclicDependencies n ds m \<noteq> Some (InvariantViolation v)"
  unfolding checkCyclicDependencies_def by (simp only: split: if_splits) simp

lemma CreateTask_violation_store:
  assumes "CreateTask r title description priority assignee dueDate tags dependencies now
             = (Inl (InvariantViolation v), r')"
  shows "fmlookup (tasks r') (nextTaskID r) =
           Some \<lparr>ID = nextTaskID r, Title = title, Description = description,
                  Status = initial_status dependencies (remdups dependencies) (tasks r),
                  Priority = priority, Assignee = assignee, CreatedBy = the (currentUser r),
                  CreatedAt = now, UpdatedAt = now, DueDate = dueDate,
                  Tags = tags, Dependencies = remdups dependencies\<rparr>
         \<and> fmlookup (tasks r) (nextTaskID r) = None
         \<and> nextTaskID r' > nextTaskID r
         \<and> post_check r' = Some v"
  using assms validate_dependencies_not_violation[of "tasks r" dependencies v]
    checkCyclicDependencies_not_violation[of "nextTaskID r" "remdups dependencies" "tasks r" v]
  unfolding CreateTask_def GetCurrentUser_def GetNextTaskID_def GetAllTasks_def
  by (auto simp: Let_def repo_CreateTask_def IncrementNextTaskID_def Rollback_def
           split: option.splits if_splits prod.splits)

lemma CreateTask_violation:
  assumes "CreateTask r title description priority assignee dueDate tags dependencies now
             = (Inl (InvariantViolation v), r')"
  shows "\<exists>task. fmlookup (tasks r') (ID task) = Some task
            \<and> fmlookup (tasks r) (ID task) = None
            \<and> Title task = title \<and> Description task = description \<and> Assignee task = assignee
            \<and> nextTaskID r' > nextTaskID r
            \<and> post_check r' = Some v"
proof -
  let ?t = "\<lparr>ID = nextTaskID r, Title = title, Description = description,
                  Status = initial_status dependencies (remdups dependencies) (tasks r),
                  Priority = priority, Assignee = assignee, CreatedBy = the (currentUser r),
                  CreatedAt = now, UpdatedAt = now, DueDate = dueDate,
                  Tags = tags, Dependencies = remdups dependencies\<rparr>"
  from CreateTask_violation_store[OF assms]
  have "fmlookup (tasks r') (ID ?t) = Some ?t
            \<and> fmlookup (tasks r) (ID ?t) = None
            \<and> Title ?t = title \<and> Description ?t = description \<and> Assignee ?t = assignee
            \<and> nextTaskID r' > nextTaskID r
            \<and> post_check r' = Some v"
    by simp
  then show ?thesis
    by (rule exI)
qed

lemma UpdateTaskStatus_violation:
  assumes "UpdateTaskStatus r taskID newStatus now = (Some (InvariantViolation v), r')"
  shows "\<exists>task. fmlookup (tasks r) taskID = Some task
            \<and> Status task \<noteq> newStatus
            \<and> fmlookup (tasks r') (ID task) = Some (task\<lparr>Status := newStatus, UpdatedAt := now\<rparr>)
            \<and> post_check r' = Some v"
proof -
  have self: "\<And>s. \<not> IsValidTransition s s"
    unfolding IsValidTransition_def ValidTransitions_def by auto
  show ?thesis
    using assms self
    unfolding UpdateTaskStatus_def GetCurrentUser_def GetTask_def
    by (auto simp: repo_UpdateTask_def Rollback_def
             split: option.splits if_splits prod.splits)
qed

lemma BulkUpdateStatus_violation:
  assumes "BulkUpdateStatus r taskIDs newStatus now = (Some (InvariantViolation v), r')"
  shows "(\<forall>tid \<in> set taskIDs. \<exists>task. fmlookup (tasks r) tid = Some task
             \<and> fmlookup (tasks r') tid = Some (task\<lparr>Status := newStatus, UpdatedAt := now\<rparr>))
         \<and> post_check r' = Some v"
proof -
  from assms obtain cu where cu: "currentUser r = Some cu"
    unfolding BulkUpdateStatus_def GetCurrentUser_def by (auto split: option.splits)
  have pre: "bulk_precheck r cu newStatus taskIDs = None"
  proof (cases "bulk_precheck r cu newStatus taskIDs")
    case None then show ?thesis .
  next
    case (Some e)
    have "e \<noteq> InvariantViolation v"
      using Some
      by (induction taskIDs) (auto simp: GetTask_def split: option.splits if_splits)
    with assms cu Some show ?thesis
      unfolding BulkUpdateStatus_def GetCurrentUser_def by simp
  qed
  from assms cu pre have r': "r' = repo_BulkUpdateStatus r taskIDs newStatus now" "post_check r' = Some v"
    unfolding BulkUpdateStatus_def GetCurrentUser_def
    by (auto simp: Let_def Rollback_def split: option.splits)
  from bulk_precheck_None[OF pre] r' show ?thesis
    by (auto simp: repo_BulkUpdateStatus_def fold_bulk_set_status_lookup)
qed

lemma Authenticate_violation:
  assumes "Authenticate r userID token now = (Inl (InvariantViolation v), r')"
  shows "fmlookup (sessions r) token = None
         \<and> (\<exists>s. fmlookup (sessions r') token = Some s \<and> Session_Token s = token \<and> Session_Active s)
         \<and> currentUser r' = Some userID
         \<and> post_check r' = Some v"
  using assms
  unfolding Authenticate_def GetUser_def
  by (auto simp: Let_def CreateSession_def SetCurrentUser_def Rollback_def
           split: option.splits if_splits prod.splits sum.splits)

text \<open>
  Claim C5. \<^verbatim>\<open>Begin\<close>, \<^verbatim>\<open>Commit\<close> and \<^verbatim>\<open>Rollback\<close> of the in-memory unit of work return the
  store as it is. So whenever one of the four operations that run the engine returns an
  invariant-violation error, the store it leaves is the mutated one, the very store the
  engine rejected: after \<^verbatim>\<open>CreateTask\<close> the new task is stored under an id that was free
  before and the id counter has advanced; after \<^verbatim>\<open>UpdateTaskStatus\<close> the task carries the
  new status; after \<^verbatim>\<open>BulkUpdateStatus\<close> every listed task carries it; after
  \<^verbatim>\<open>Authenticate\<close> the new session is stored and the current user is replaced.
\<close>

theorem C5_invariant_failure_keeps_the_mutation:
  "Begin r = r \<and> Commit r = r \<and> Rollback r = r
   \<and> (CreateTask r title description priority assignee dueDate tags dependencies now
         = (Inl (InvariantViolation v), r')
       \<longrightarrow> (\<exists>task. fmlookup (tasks r') (ID task) = Some task
              \<and> fmlookup (tasks r) (ID task) = None
              \<and> Title task = title \<and> Description task = description \<and> Assignee task = assignee
              \<and> nextTaskID r' > nextTaskID r
              \<and> post_check r' = Some v))
   \<and> (UpdateTaskStatus r taskID newStatus now = (Some (InvariantViolation v), r')
       \<longrightarrow> (\<exists>task. fmlookup (tasks r) taskID = Some task
              \<and> Status task \<noteq> newStatus
              \<and> fmlookup (tasks r') (ID task) = Some (task\<lparr>Status := newStatus, UpdatedAt := now\<rparr>)
              \<and> post_check r' = Some v))
   \<and> (BulkUpdateStatus r taskIDs newStatus now = (Some (InvariantViolation v), r')
       \<longrightarrow> (\<forall>tid \<in> set taskIDs. \<exists>task. fmlookup (tasks r) tid = Some task
                \<and> fmlookup (tasks r') tid = Some (task\<lparr>Status := newStatus, UpdatedAt := now\<rparr>))
           \<and> post_check r' = Some v)
   \<and> (Authenticate r userID token now = (Inl (InvariantViolation v), r')
       \<longrightarrow> fmlookup (sessions r) token = None
           \<and> (\<exists>s. fmlookup (sessions r') token = Some s \<and> Session_Token s = token \<and> Session_Active s)
           \<and> currentUser r' = Some userID
           \<and> post_check r' = Some v)"
  using CreateTask_violation UpdateTaskStatus_violation BulkUpdateStatus_violation
    Authenticate_violation
  by (simp add: Begin_def Commit_def Rollback_def)

theorem C5_invariant_failure_keeps_the_mutation_witness:
  "fst (CreateTask store_bad ''E'' ''fifth'' PriorityLow ''alice'' None [] [] 10)
      = Inl (InvariantViolation AuthenticationRequired)
   \<and> (\<exists>task. fmlookup (tasks (snd (CreateTask store_bad ''E'' ''fifth'' PriorityLow ''alice'' None [] [] 10)))
                 (ID task) = Some task
          \<and> fmlookup (tasks store_bad) (ID task) = None \<and> Title task = ''E'')
   \<and> fst (UpdateTaskStatus store_bad 2 StatusPending 10)
      = Some (InvariantViolation AuthenticationRequired)
   \<and> (\<exists>task. fmlookup (tasks store_bad) 2 = Some task
          \<and> fmlookup (tasks (snd (UpdateTaskStatus store_bad 2 StatusPending 10))) (ID task)
              = Some (task\<lparr>Status := StatusPending, UpdatedAt := 10\<rparr>))
   \<and> fst (BulkUpdateStatus store_bad [2] StatusPending 10)
      = Some (InvariantViolation AuthenticationRequired)
   \<and> (\<exists>task. fmlookup (tasks store_bad) 2 = Some task
          \<and> fmlookup (tasks (snd (BulkUpdateStatus store_bad [2] StatusPending 10))) 2
              = Some (task\<lparr>Status := StatusPending, UpdatedAt := 10\<rparr>))
   \<and> fst (Authenticate store_bad ''bob'' ''token-b'' 10)
      = Inl (InvariantViolation AuthenticationRequired)
   \<and> currentUser (snd (Authenticate store_bad ''bob'' ''token-b'' 10)) = Some ''bob''"
proof -
  let ?c = "CreateTask store_bad ''E'' ''fifth'' PriorityLow ''alice'' None [] [] 10"
  let ?u = "UpdateTaskStatus store_bad 2 StatusPending 10"
  let ?b = "BulkUpdateStatus store_bad [2] StatusPending 10"
  let ?a = "Authenticate store_bad ''bob'' ''token-b'' 10"
  have fc: "fst ?c = Inl (InvariantViolation AuthenticationRequired)"
    by code_simp
  have fu: "fst ?u = Some (InvariantViolation AuthenticationRequired)"
    by code_simp
  have fb: "fst ?b = Some (InvariantViolation AuthenticationRequired)"
    by code_simp
  have fa: "fst ?a = Inl (InvariantViolation AuthenticationRequired)"
    by code_simp
  have hc: "?c = (Inl (InvariantViolation AuthenticationRequired), snd ?c)"
    using fc by (metis prod.collapse)
  have hu: "?u = (Some (InvariantViolation AuthenticationRequired), snd ?u)"
    using fu by (metis prod.collapse)
  have hb: "?b = (Some (InvariantViolation AuthenticationRequired), snd ?b)"
    using fb by (metis prod.collapse)
  have ha: "?a = (Inl (InvariantViolation AuthenticationRequired), snd ?a)"
    using fa by (metis prod.collapse)
  have c: "\<exists>task. fmlookup (tasks (snd ?c)) (ID task) = Some task
          \<and> fmlookup (tasks store_bad) (ID task) = None \<and> Title task = ''E''"
    using C5_invariant_failure_keeps_the_mutation[where r = store_bad and title = "''E''"
        and description = "''fifth''" and priority = PriorityLow and assignee = "''alice''"
        and dueDate = None and tags = "[]" and dependencies = "[]" and now = 10
        and v = AuthenticationRequired and r' = "snd ?c"] hc
    by blast
  have u: "\<exists>task. fmlookup (tasks store_bad) 2 = Some task
          \<and> fmlookup (tasks (snd ?u)) (ID task) = Some (task\<lparr>Status := StatusPending, UpdatedAt := 10\<rparr>)"
    using C5_invariant_failure_keeps_the_mutation[where r = store_bad and now = 10
        and v = AuthenticationRequired and r' = "snd ?u" and taskID = 2
        and newStatus = StatusPending] hu
    by blast
  have b: "\<exists>task. fmlookup (tasks store_bad) 2 = Some task
          \<and> fmlookup (tasks (snd ?b)) 2 = Some (task\<lparr>Status := StatusPending, UpdatedAt := 10\<rparr>)"
    using C5_invariant_failure_keeps_the_mutation[where r = store_bad and now = 10
        and v = AuthenticationRequired and r' = "snd ?b" and taskIDs = "[2]"
        and newStatus = StatusPending] hb
    by simp
  have a: "currentUser (snd ?a) = Some ''bob''"
    using C5_invariant_failure_keeps_the_mutation[where r = store_bad and now = 10
        and v = AuthenticationRequired and r' = "snd ?a" and userID = "''bob''"
        and token = "''token-b''"] ha
    by blast
  show ?thesis
    using fc c fu u fb b fa a by blast
qed

subsection \<open>C6: the initial status of a created task\<close>

lemma validate_dependencies_None:
  "validate_dependencies m ds = None \<Longrightarrow>
     \<forall>d \<in> set ds. \<exists>dep. fmlookup m d = Some dep \<and> Status dep \<noteq> StatusCancelled"
  by (induction ds) (auto split: option.splits if_splits)

lemma initial_status_spec:
  assumes "\<forall>d \<in> set ds. \<exists>dep. fmlookup m d = Some dep"
  shows "initial_status ds (remdups ds) m =
           (if ds = [] \<or> (\<forall>d \<in> set ds. \<exists>dep. fmlookup m d = Some dep \<and> Status dep = StatusCompleted)
            then StatusPending else StatusBlocked)"
proof -
  have "list_all (dep_completed m) (remdups ds)
          \<longleftrightarrow> (\<forall>d \<in> set ds. \<exists>dep. fmlookup m d = Some dep \<and> Status dep = StatusCompleted)"
    by (auto simp: list_all_iff dep_completed_def split: option.splits)
  then show ?thesis
    by (auto simp: initial_status_def)
qed

lemma CreateTask_success:
  assumes "CreateTask r title description priority assignee dueDate tags dependencies now = (Inr task, r')"
  shows "validate_dependencies (tasks r) dependencies = None
       \<and> task = \<lparr>ID = nextTaskID r, Title = title, Description = description,
                  Status = initial_status dependencies (remdups dependencies) (tasks r),
                  Priority = priority, Assignee = assignee, CreatedBy = the (currentUser r),
                  CreatedAt = now, UpdatedAt = now, DueDate = dueDate,
                  Tags = tags, Dependencies = remdups dependencies\<rparr>
       \<and> fmlookup (tasks r') (ID task) = Some task"
  using assms
  unfolding CreateTask_def GetCurrentUser_def GetNextTaskID_def GetAllTasks_def
  by (auto simp: Let_def repo_CreateTask_def IncrementNextTaskID_def Rollback_def
           split: option.splits if_splits prod.splits)

text \<open>
  Claim C6. When \<^verbatim>\<open>CreateTask\<close> succeeds, the task it returns (and has stored) is
  \<^verbatim>\<open>pending\<close> if the requested dependency list is empty or every requested dependency
  is a stored task with status \<^verbatim>\<open>completed\<close>, and \<^verbatim>\<open>blocked\<close> otherwise.
\<close>

theorem C6_initial_status:
  assumes "CreateTask r title description priority assignee dueDate tags dependencies now = (Inr task, r')"
  shows "Status task =
           (if dependencies = []
               \<or> (\<forall>d \<in> set dependencies. \<exists>dep. fmlookup (tasks r) d = Some dep \<and> Status dep = StatusCompleted)
            then StatusPending else StatusBlocked)
         \<and> fmlookup (tasks r') (ID task) = Some task"
proof -
  note s = CreateTask_success[OF assms]
  from s have ex: "\<forall>d \<in> set dependencies. \<exists>dep. fmlookup (tasks r) d = Some dep"
    using validate_dependencies_None by blast
  from s have "Status task = initial_status dependencies (remdups dependencies) (tasks r)"
    by simp
  then have "Status task =
           (if dependencies = []
               \<or> (\<forall>d \<in> set dependencies. \<exists>dep. fmlookup (tasks r) d = Some dep \<and> Status dep = StatusCompleted)
            then StatusPending else StatusBlocked)"
    by (simp only: initial_status_spec[OF ex])
  moreover from s have "fmlookup (tasks r') (ID task) = Some task"
    by blast
  ultimately show ?thesis
    by blast
qed

theorem C6_initial_status_witness:
  "fst (CreateTask store_AB ''C'' ''third'' PriorityHigh ''bob'' None [TagBug] [1] 7)
     = Inr \<lparr>ID = 3, Title = ''C'', Description = ''third'', Status = StatusBlocked,
             Priority = PriorityHigh, Assignee = ''bob'', CreatedBy = ''alice'',
             CreatedAt = 7, UpdatedAt = 7, DueDate = None, Tags = [TagBug], Dependencies = [1]\<rparr>
   \<and> fmlookup (tasks store_AB) 1 = Some task_A
   \<and> Status task_A = StatusPending"
proof -
  let ?t = "\<lparr>ID = 3, Title = ''C'', Description = ''third'', Status = StatusBlocked,
             Priority = PriorityHigh, Assignee = ''bob'', CreatedBy = ''alice'',
             CreatedAt = 7, UpdatedAt = 7, DueDate = None, Tags = [TagBug], Dependencies = [1]\<rparr>"
  let ?run = "CreateTask store_AB ''C'' ''third'' PriorityHigh ''bob'' None [TagBug] [1] 7"
  have f: "fst ?run = Inr ?t"
    by code_simp
  then have h: "?run = (Inr ?t, snd ?run)"
    by (metis prod.collapse)
  have a: "fmlookup (tasks store_AB) 1 = Some task_A" "Status task_A = StatusPending"
    by (simp_all add: store_AB_def task_A_def)
  from C6_initial_status[OF h] have "Status ?t = StatusBlocked"
    using a by simp
  with f a show ?thesis
    by simp
qed

subsection \<open>C7: the dependency sweep\<close>

lemma task_values_map_ID:
  assumes "\<forall>k t. fmlookup m k = Some t \<longrightarrow> ID t = k"
  shows "map ID (task_values m) = sorted_list_of_fset (fmdom m)"
proof -
  have "map (\<lambda>k. ID (the (fmlookup m k))) (sorted_list_of_fset (fmdom m))
          = sorted_list_of_fset (fmdom m)"
    by (rule map_idI) (use assms in \<open>auto simp: fmlookup_dom_iff\<close>)
  then show ?thesis
    by (simp add: task_values_def sorted_list_of_fmap_def comp_def)
qed

lemma task_values_distinct_ID:
  assumes "\<forall>k t. fmlookup m k = Some t \<longrightarrow> ID t = k"
  shows "distinct (map ID (task_values m))"
  unfolding task_values_map_ID[OF assms]
  by (simp add: sorted_list_of_fset.rep_eq)

lemma unblock_loop_none:
  "\<forall>t \<in> set L. \<not> ShouldUnblock t allTasks \<Longrightarrow> unblock_loop L allTasks now n r = ((n, None), r)"
  by (induction L arbitrary: n r) auto

lemma unblock_loop_run:
  assumes "distinct (map ID L)"
    and "\<forall>t \<in> set L. fmlookup (tasks r) (ID t) = Some t"
  shows "\<exists>r'. unblock_loop L allTasks now n r
                 = ((n + length (filter (\<lambda>t. ShouldUnblock t allTasks) L), None), r')
            \<and> (\<forall>k. fmlookup (tasks r') k =
                     (if \<exists>t \<in> set L. ID t = k \<and> ShouldUnblock t allTasks
                      then map_option (\<lambda>t. t\<lparr>Status := StatusPending, UpdatedAt := now\<rparr>) (fmlookup (tasks r) k)
                      else fmlookup (tasks r) k))
            \<and> r' = r\<lparr>tasks := tasks r'\<rparr>"
  using assms
proof (induction L arbitrary: n r)
  case Nil
  then show ?case by simp
next
  case (Cons task rest)
  have here: "fmlookup (tasks r) (ID task) = Some task"
    using Cons.prems(2) by simp
  have others: "\<forall>t \<in> set rest. ID t \<noteq> ID task"
    using Cons.prems(1) by (force simp: image_iff)
  have dist: "distinct (map ID rest)"
    using Cons.prems(1) by simp
  show ?case
  proof (cases "ShouldUnblock task allTasks")
    case False
    have rest: "\<forall>t \<in> set rest. fmlookup (tasks r) (ID t) = Some t"
      using Cons.prems(2) by simp
    from Cons.IH[OF dist rest, of n] obtain r' where
      run: "unblock_loop rest allTasks now n r
              = ((n + length (filter (\<lambda>t. ShouldUnblock t allTasks) rest), None), r')"
      and lk: "\<forall>k. fmlookup (tasks r') k =
                     (if \<exists>t \<in> set rest. ID t = k \<and> ShouldUnblock t allTasks
                      then map_option (\<lambda>t. t\<lparr>Status := StatusPending, UpdatedAt := now\<rparr>) (fmlookup (tasks r) k)
                      else fmlookup (tasks r) k)"
      and eq: "r' = r\<lparr>tasks := tasks r'\<rparr>"
      by blast
    have "\<forall>k. fmlookup (tasks r') k =
                     (if \<exists>t \<in> set (task # rest). ID t = k \<and> ShouldUnblock t allTasks
                      then map_option (\<lambda>t. t\<lparr>Status := StatusPending, UpdatedAt := now\<rparr>) (fmlookup (tasks r) k)
                      else fmlookup (tasks r) k)"
      using lk False by auto
    with run eq False show ?thesis
      by auto
  next
    case True
    let ?t' = "task\<lparr>Status := StatusPending, UpdatedAt := now\<rparr>"
    let ?r1 = "r\<lparr>tasks := fmupd (ID task) ?t' (tasks r)\<rparr>"
    have upd: "repo_UpdateTask r ?t' = (None, ?r1)"
      using here by (simp add: repo_UpdateTask_def)
    have rest: "\<forall>t \<in> set rest. fmlookup (tasks ?r1) (ID t) = Some t"
      using Cons.prems(2) others by (auto simp: eq_commute[of "ID task"])
    from Cons.IH[OF dist rest, of "n + 1"] obtain r' where
      run: "unblock_loop rest allTasks now (n + 1) ?r1
              = ((n + 1 + length (filter (\<lambda>t. ShouldUnblock t allTasks) rest), None), r')"
      and lk: "\<forall>k. fmlookup (tasks r') k =
                     (if \<exists>t \<in> set rest. ID t = k \<and> ShouldUnblock t allTasks
                      then map_option (\<lambda>t. t\<lparr>Status := StatusPending, UpdatedAt := now\<rparr>) (fmlookup (tasks ?r1) k)
                      else fmlookup (tasks ?r1) k)"
      and eq: "r' = ?r1\<lparr>tasks := tasks r'\<rparr>"
      by blast
    have lk': "\<forall>k. fmlookup (tasks r') k =
                     (if \<exists>t \<in> set (task # rest). ID t = k \<and> ShouldUnblock t allTasks
                      then map_option (\<lambda>t. t\<lparr>Status := StatusPending, UpdatedAt := now\<rparr>) (fmlookup (tasks r) k)
                      else fmlookup (tasks r) k)"
    proof
      fix k
      show "fmlookup (tasks r') k =
                     (if \<exists>t \<in> set (task # rest). ID t = k \<and> ShouldUnblock t allTasks
                      then map_option (\<lambda>t. t\<lparr>Status := StatusPending, UpdatedAt := now\<rparr>) (fmlookup (tasks r) k)
                      else fmlookup (tasks r) k)"
      proof (cases "k = ID task")
        case True
        then have no: "\<not> (\<exists>t \<in> set rest. ID t = k \<and> ShouldUnblock t allTasks)"
          using others by auto
        have "fmlookup (tasks r') k = fmlookup (tasks ?r1) k"
          using spec[OF lk, of k] by (simp only: no if_False)
        then show ?thesis
          using True \<open>ShouldUnblock task allTasks\<close> here by simp
      next
        case False
        then have same: "fmlookup (tasks ?r1) k = fmlookup (tasks r) k"
          by simp
        have ex: "(\<exists>t \<in> set (task # rest). ID t = k \<and> ShouldUnblock t allTasks)
                    = (\<exists>t \<in> set rest. ID t = k \<and> ShouldUnblock t allTasks)"
          using False by auto
        show ?thesis
          unfolding ex using spec[OF lk, of k] by (simp only: same)
      qed
    qed
    have eq': "r' = r\<lparr>tasks := tasks r'\<rparr>"
      using eq by (metis (no_types) MemoryRepository.surjective MemoryRepository.update_convs(1))
    show ?thesis
      using True upd run lk' eq' by simp
  qed
qed

lemma ShouldUnblock_spec:
  assumes "\<forall>d \<in> set (Dependencies t). fmlookup m d \<noteq> None"
  shows "ShouldUnblock t m \<longleftrightarrow> Status t = StatusBlocked \<and> deps_all_completed m t"
  using assms
  by (auto simp: ShouldUnblock_def deps_all_completed_def list_all_iff dep_not_incomplete_def
           split: option.splits)

lemma blocked_tasks_facts:
  assumes keys: "\<forall>k t. fmlookup (tasks r) k = Some t \<longrightarrow> ID t = k"
  shows "distinct (map ID (GetTasksByStatus r st))"
    and "\<forall>t \<in> set (GetTasksByStatus r st). fmlookup (tasks r) (ID t) = Some t"
    and "set (GetTasksByStatus r st) = {t. (\<exists>k. fmlookup (tasks r) k = Some t) \<and> Status t = st}"
proof -
  show "distinct (map ID (GetTasksByStatus r st))"
    unfolding GetTasksByStatus_def
    by (rule distinct_map_filter) (rule task_values_distinct_ID[OF keys])
  show "set (GetTasksByStatus r st) = {t. (\<exists>k. fmlookup (tasks r) k = Some t) \<and> Status t = st}"
    by (auto simp: GetTasksByStatus_def set_task_values)
  then show "\<forall>t \<in> set (GetTasksByStatus r st). fmlookup (tasks r) (ID t) = Some t"
    using keys by auto
qed

text \<open>
  Claim C7. In a store that passes the engine and in which every dependency id names a
  stored task, \<^verbatim>\<open>CheckDependencies\<close> returns without error; it rewrites exactly the blocked
  tasks whose dependencies are all completed, to \<^verbatim>\<open>pending\<close> with a fresh time stamp,
  leaves every other task and every other part of the store as it was, and returns the
  number of tasks it rewrote. A second sweep on the resulting store returns zero and
  changes nothing.
\<close>

theorem C7_dependency_sweep:
  assumes consistent: "post_check r = None"
    and present: "\<forall>k t. fmlookup (tasks r) k = Some t
                    \<longrightarrow> (\<forall>d \<in> set (Dependencies t). fmlookup (tasks r) d \<noteq> None)"
  shows "\<exists>r'. CheckDependencies r now =
                 ((card {k. \<exists>t. fmlookup (tasks r) k = Some t \<and> Status t = StatusBlocked
                                 \<and> deps_all_completed (tasks r) t}, None), r')
            \<and> (\<forall>k t. fmlookup (tasks r) k = Some t \<longrightarrow>
                   fmlookup (tasks r') k =
                     Some (if Status t = StatusBlocked \<and> deps_all_completed (tasks r) t
                           then t\<lparr>Status := StatusPending, UpdatedAt := now\<rparr> else t))
            \<and> (\<forall>k. fmlookup (tasks r) k = None \<longrightarrow> fmlookup (tasks r') k = None)
            \<and> r' = r\<lparr>tasks := tasks r'\<rparr>
            \<and> CheckDependencies r' later = ((0, None), r')"
proof -
  let ?m = "tasks r"
  let ?L = "GetTasksByStatus r StatusBlocked"
  let ?P = "\<lambda>t. ShouldUnblock t ?m"
  have keys: "\<forall>k t. fmlookup ?m k = Some t \<longrightarrow> ID t = k"
    using key_is_ID[OF consistent] by blast
  note L = blocked_tasks_facts[OF keys, of StatusBlocked]
  from unblock_loop_run[OF L(1) L(2), of ?m now 0] obtain r' where
    run: "unblock_loop ?L ?m now 0 r = ((0 + length (filter ?P ?L), None), r')"
    and lk: "\<forall>k. fmlookup (tasks r') k =
                     (if \<exists>t \<in> set ?L. ID t = k \<and> ?P t
                      then map_option (\<lambda>t. t\<lparr>Status := StatusPending, UpdatedAt := now\<rparr>) (fmlookup ?m k)
                      else fmlookup ?m k)"
    and eq: "r' = r\<lparr>tasks := tasks r'\<rparr>"
    by blast
  have hit: "(\<exists>t' \<in> set ?L. ID t' = k \<and> ?P t') \<longleftrightarrow> ?P t" if "fmlookup ?m k = Some t" for k t
  proof
    assume "\<exists>t' \<in> set ?L. ID t' = k \<and> ?P t'"
    then obtain t' where t': "t' \<in> set ?L" "ID t' = k" "?P t'"
      by blast
    with L(2) have "fmlookup ?m k = Some t'"
      by auto
    with that t'(3) show "?P t"
      by simp
  next
    assume p: "?P t"
    then have "Status t = StatusBlocked"
      by (simp add: ShouldUnblock_def split: if_splits)
    with that have "t \<in> set ?L"
      unfolding L(3) by blast
    moreover have "ID t = k"
      using keys that by blast
    ultimately show "\<exists>t' \<in> set ?L. ID t' = k \<and> ?P t'"
      using p by blast
  qed
  have spec_iff: "?P t \<longleftrightarrow> Status t = StatusBlocked \<and> deps_all_completed ?m t"
    if "fmlookup ?m k = Some t" for k t
    using ShouldUnblock_spec present that by blast
  have stored: "\<forall>k t. fmlookup ?m k = Some t \<longrightarrow>
                   fmlookup (tasks r') k =
                     Some (if Status t = StatusBlocked \<and> deps_all_completed ?m t
                           then t\<lparr>Status := StatusPending, UpdatedAt := now\<rparr> else t)"
  proof (intro allI impI)
    fix k t assume kt: "fmlookup ?m k = Some t"
    show "fmlookup (tasks r') k =
                     Some (if Status t = StatusBlocked \<and> deps_all_completed ?m t
                           then t\<lparr>Status := StatusPending, UpdatedAt := now\<rparr> else t)"
      using spec[OF lk, of k] hit[OF kt] spec_iff[OF kt] kt by simp
  qed
  have absent: "\<forall>k. fmlookup ?m k = None \<longrightarrow> fmlookup (tasks r') k = None"
    using lk by simp
  have count: "length (filter ?P ?L)
                 = card {k. \<exists>t. fmlookup ?m k = Some t \<and> Status t = StatusBlocked
                                 \<and> deps_all_completed ?m t}"
  proof -
    have d: "distinct (map ID (filter ?P ?L))"
      by (rule distinct_map_filter[OF L(1)])
    have "set (map ID (filter ?P ?L))
            = {k. \<exists>t. fmlookup ?m k = Some t \<and> Status t = StatusBlocked \<and> deps_all_completed ?m t}"
    proof (intro set_eqI iffI)
      fix k assume "k \<in> set (map ID (filter ?P ?L))"
      then obtain t where t: "t \<in> set ?L" "?P t" "ID t = k"
        by auto
      with L(2) have kt: "fmlookup ?m k = Some t"
        by auto
      with spec_iff[OF kt] t(2)
      show "k \<in> {k. \<exists>t. fmlookup ?m k = Some t \<and> Status t = StatusBlocked \<and> deps_all_completed ?m t}"
        by blast
    next
      fix k assume "k \<in> {k. \<exists>t. fmlookup ?m k = Some t \<and> Status t = StatusBlocked \<and> deps_all_completed ?m t}"
      then obtain t where kt: "fmlookup ?m k = Some t"
        and u: "Status t = StatusBlocked \<and> deps_all_completed ?m t"
        by blast
      from u spec_iff[OF kt] have "?P t"
        by simp
      with hit[OF kt] show "k \<in> set (map ID (filter ?P ?L))"
        by auto
    qed
    then show ?thesis
      using distinct_card[OF d] by simp
  qed
  have again: "CheckDependencies r' later = ((0, None), r')"
  proof -
    have "\<forall>t \<in> set (GetTasksByStatus r' StatusBlocked). \<not> ShouldUnblock t (tasks r')"
    proof
      fix t assume "t \<in> set (GetTasksByStatus r' StatusBlocked)"
      then obtain k where k: "fmlookup (tasks r') k = Some t" and b: "Status t = StatusBlocked"
        by (auto simp: GetTasksByStatus_def set_task_values)
      from k absent obtain t0 where t0: "fmlookup ?m k = Some t0"
        by (cases "fmlookup ?m k") auto
      from stored t0 k have
        "t = (if Status t0 = StatusBlocked \<and> deps_all_completed ?m t0
              then t0\<lparr>Status := StatusPending, UpdatedAt := now\<rparr> else t0)"
        by simp
      with b have same: "t = t0" and no: "\<not> (Status t0 = StatusBlocked \<and> deps_all_completed ?m t0)"
        by (auto split: if_splits)
      from no b same have "\<not> deps_all_completed ?m t"
        by simp
      then obtain d where d: "d \<in> set (Dependencies t)"
        and nd: "\<not> (\<exists>dep. fmlookup ?m d = Some dep \<and> Status dep = StatusCompleted)"
        by (auto simp: deps_all_completed_def)
      from present t0 same d obtain dep where dep: "fmlookup ?m d = Some dep"
        by fastforce
      with nd have "Status dep \<noteq> StatusCompleted"
        by simp
      with stored dep have "\<exists>dep'. fmlookup (tasks r') d = Some dep' \<and> Status dep' \<noteq> StatusCompleted"
        by (auto split: if_splits)
      then have "\<not> dep_not_incomplete (tasks r') d"
        by (auto simp: dep_not_incomplete_def)
      with d show "\<not> ShouldUnblock t (tasks r')"
        by (auto simp: ShouldUnblock_def list_all_iff)
    qed
    then show ?thesis
      unfolding CheckDependencies_def GetAllTasks_def by (rule unblock_loop_none)
  qed
  from run count have "CheckDependencies r now =
                 ((card {k. \<exists>t. fmlookup ?m k = Some t \<and> Status t = StatusBlocked
                                 \<and> deps_all_completed ?m t}, None), r')"
    by (simp add: CheckDependencies_def GetAllTasks_def)
  with stored absent eq again show ?thesis
    by blast
qed

theorem C7_dependency_sweep_witness:
  "post_check store_work = None
   \<and> fmlookup (tasks store_work) 2 = Some task_B
   \<and> Status task_B = StatusBlocked \<and> Dependencies task_B = [1]
   \<and> fmlookup (tasks store_work) 1 = Some task_done \<and> Status task_done = StatusCompleted
   \<and> fst (CheckDependencies store_work 10) = (1, None)
   \<and> fmlookup (tasks (snd (CheckDependencies store_work 10))) 2
        = Some (task_B\<lparr>Status := StatusPending, UpdatedAt := 10\<rparr>)
   \<and> fmlookup (tasks (snd (CheckDependencies store_work 10))) 1 = Some task_done
   \<and> fmlookup (tasks (snd (CheckDependencies store_work 10))) 3 = Some task_old
   \<and> CheckDependencies (snd (CheckDependencies store_work 10)) 11
        = ((0, None), snd (CheckDependencies store_work 10))"
proof -
  have h1: "post_check store_work = None"
    by code_simp
  have h2: "\<forall>k t. fmlookup (tasks store_work) k = Some t
              \<longrightarrow> (\<forall>d \<in> set (Dependencies t). fmlookup (tasks store_work) d \<noteq> None)"
    by (auto simp: store_work_def task_B_def task_done_def task_old_def split: if_splits)
  have l: "fmlookup (tasks store_work) 2 = Some task_B"
    "fmlookup (tasks store_work) 1 = Some task_done"
    "fmlookup (tasks store_work) 3 = Some task_old"
    by (simp_all add: store_work_def)
  have s: "Status task_B = StatusBlocked" "Dependencies task_B = [1]"
    "Status task_done = StatusCompleted" "Status task_old = StatusCancelled"
    by (simp_all add: task_B_def task_done_def task_old_def)
  have dc: "deps_all_completed (tasks store_work) task_B"
    using l s by (simp add: deps_all_completed_def)
  have n: "fst (CheckDependencies store_work 10) = (1, None)"
    by code_simp
  from C7_dependency_sweep[OF h1 h2, of 10 11] obtain r' where
    run: "snd (CheckDependencies store_work 10) = r'"
    and stored: "\<forall>k t. fmlookup (tasks store_work) k = Some t \<longrightarrow>
                   fmlookup (tasks r') k =
                     Some (if Status t = StatusBlocked \<and> deps_all_completed (tasks store_work) t
                           then t\<lparr>Status := StatusPending, UpdatedAt := 10\<rparr> else t)"
    and again: "CheckDependencies r' 11 = ((0, None), r')"
    by force
  from stored l(1) s dc have c2: "fmlookup (tasks r') 2 = Some (task_B\<lparr>Status := StatusPending, UpdatedAt := 10\<rparr>)"
    by simp
  from stored l(2) s have c1: "fmlookup (tasks r') 1 = Some task_done"
    by simp
  from stored l(3) s have c3: "fmlookup (tasks r') 3 = Some task_old"
    by simp
  show ?thesis
    unfolding run using h1 l s n c1 c2 c3 again by simp
qed

subsection \<open>C8: deleting a task\<close>

lemma has_dependents_iff:
  "length (GetTasksByDependency r taskID) > 0 \<longleftrightarrow>
     (\<exists>k other. fmlookup (tasks r) k = Some other \<and> taskID \<in> set (Dependencies other))"
proof -
  have "length (GetTasksByDependency r taskID) > 0
          \<longleftrightarrow> (\<exists>t \<in> set (task_values (tasks r)). taskID \<in> set (Dependencies t))"
    by (simp add: GetTasksByDependency_def filter_empty_conv)
  then show ?thesis
    by (auto simp: set_task_values)
qed

lemma remove_user_task_lookup:
  "tid \<notin> (case fmlookup (remove_user_task ut u tid) u of None \<Rightarrow> {} | Some ids \<Rightarrow> ids)"
  by (simp add: remove_user_task_def split: option.splits)

text \<open>
  Claim C8. Let the authenticated current user be the assignee of a stored task.
  \<^verbatim>\<open>DeleteTask\<close> fails, leaving the store unchanged, if the task is neither completed nor
  cancelled, and also if another stored task lists it as a dependency, whatever the status
  of that task. If the task is completed or cancelled and no stored task lists it,
  \<^verbatim>\<open>DeleteTask\<close> succeeds: the task is gone from the task map and from the assignee's
  index, and all other tasks are as before.
\<close>

theorem C8_delete:
  assumes auth: "currentUser r = Some cu"
    and look: "fmlookup (tasks r) taskID = Some task"
    and own: "Assignee task = cu"
  shows "(Status task \<noteq> StatusCompleted \<and> Status task \<noteq> StatusCancelled
            \<longrightarrow> DeleteTask r taskID = (Some NotDeletable, r))
       \<and> ((\<exists>k other. k \<noteq> taskID \<and> fmlookup (tasks r) k = Some other
                \<and> taskID \<in> set (Dependencies other))
            \<longrightarrow> DeleteTask r taskID =
                  (Some (if Status task = StatusCompleted \<or> Status task = StatusCancelled
                         then HasDependents else NotDeletable), r))
       \<and> ((Status task = StatusCompleted \<or> Status task = StatusCancelled)
            \<and> (\<forall>k other. fmlookup (tasks r) k = Some other \<longrightarrow> taskID \<notin> set (Dependencies other))
            \<longrightarrow> (\<exists>r'. DeleteTask r taskID = (None, r')
                   \<and> fmlookup (tasks r') taskID = None
                   \<and> taskID \<notin> GetUserTasks r' cu
                   \<and> (\<forall>k. k \<noteq> taskID \<longrightarrow> fmlookup (tasks r') k = fmlookup (tasks r) k)))"
proof (intro conjI impI)
  assume "Status task \<noteq> StatusCompleted \<and> Status task \<noteq> StatusCancelled"
  then show "DeleteTask r taskID = (Some NotDeletable, r)"
    using auth look own
    by (simp add: DeleteTask_def GetCurrentUser_def GetTask_def CanDelete_def)
next
  assume "\<exists>k other. k \<noteq> taskID \<and> fmlookup (tasks r) k = Some other
                \<and> taskID \<in> set (Dependencies other)"
  then have dep: "length (GetTasksByDependency r taskID) > 0"
    unfolding has_dependents_iff by blast
  show "DeleteTask r taskID =
          (Some (if Status task = StatusCompleted \<or> Status task = StatusCancelled
                 then HasDependents else NotDeletable), r)"
    using auth look own dep
    by (simp add: DeleteTask_def GetCurrentUser_def GetTask_def CanDelete_def)
next
  assume a: "(Status task = StatusCompleted \<or> Status task = StatusCancelled)
            \<and> (\<forall>k other. fmlookup (tasks r) k = Some other \<longrightarrow> taskID \<notin> set (Dependencies other))"
  then have nodep: "\<not> length (GetTasksByDependency r taskID) > 0"
    unfolding has_dependents_iff by blast
  from a have can: "CanDelete task"
    by (simp add: CanDelete_def)
  have run: "DeleteTask r taskID =
               (None, r\<lparr>userTasks := remove_user_task (userTasks r) cu taskID,
                        tasks := fmdrop taskID (tasks r)\<rparr>)"
    using auth look own nodep can
    by (simp add: DeleteTask_def GetCurrentUser_def GetTask_def repo_DeleteTask_def)
  show "\<exists>r'. DeleteTask r taskID = (None, r')
                   \<and> fmlookup (tasks r') taskID = None
                   \<and> taskID \<notin> GetUserTasks r' cu
                   \<and> (\<forall>k. k \<noteq> taskID \<longrightarrow> fmlookup (tasks r') k = fmlookup (tasks r) k)"
    unfolding run
    by (simp add: GetUserTasks_def remove_user_task_lookup)
qed

theorem C8_delete_witness:
  "currentUser store_work = Some ''alice''
   \<and> fmlookup (tasks store_work) 3 = Some task_old
   \<and> Assignee task_old = ''alice'' \<and> Status task_old = StatusCancelled
   \<and> (\<exists>r'. DeleteTask store_work 3 = (None, r') \<and> fmlookup (tasks r') 3 = None
          \<and> 3 \<notin> GetUserTasks r' ''alice'' \<and> fmlookup (tasks r') 1 = Some task_done)
   \<and> fmlookup (tasks store_work) 2 = Some task_B \<and> Status task_B = StatusBlocked
   \<and> DeleteTask store_work 2 = (Some NotDeletable, store_work)
   \<and> fmlookup (tasks store_work) 1 = Some task_done \<and> Status task_done = StatusCompleted
   \<and> 1 \<in> set (Dependencies task_B)
   \<and> DeleteTask store_work 1 = (Some HasDependents, store_work)"
proof -
  have auth: "currentUser store_work = Some ''alice''"
    by (simp add: store_work_def)
  have l: "fmlookup (tasks store_work) 3 = Some task_old"
    "fmlookup (tasks store_work) 2 = Some task_B"
    "fmlookup (tasks store_work) 1 = Some task_done"
    by (simp_all add: store_work_def)
  have a: "Assignee task_old = ''alice''" "Assignee task_B = ''alice''" "Assignee task_done = ''alice''"
    by (simp_all add: task_B_def task_done_def task_old_def)
  have s: "Status task_old = StatusCancelled" "Status task_B = StatusBlocked"
    "Status task_done = StatusCompleted" "1 \<in> set (Dependencies task_B)"
    by (simp_all add: task_B_def task_done_def task_old_def)
  have free: "\<forall>k other. fmlookup (tasks store_work) k = Some other \<longrightarrow> 3 \<notin> set (Dependencies other)"
    by (auto simp: store_work_def task_B_def task_done_def task_old_def split: if_splits)
  from C8_delete[OF auth l(1) a(1)] s(1) free l(3)
  have c3: "\<exists>r'. DeleteTask store_work 3 = (None, r') \<and> fmlookup (tasks r') 3 = None
          \<and> 3 \<notin> GetUserTasks r' ''alice'' \<and> fmlookup (tasks r') 1 = Some task_done"
    by force
  from C8_delete[OF auth l(2) a(2)] s(2)
  have c2: "DeleteTask store_work 2 = (Some NotDeletable, store_work)"
    by simp
  have "\<exists>k other. k \<noteq> 1 \<and> fmlookup (tasks store_work) k = Some other \<and> 1 \<in> set (Dependencies other)"
    using l(2) s(4) by (intro exI[of _ 2] exI[of _ task_B]) simp
  with C8_delete[OF auth l(3) a(3)] s(3)
  have c1: "DeleteTask store_work 1 = (Some HasDependents, store_work)"
    by simp
  show ?thesis
    using auth l a s c1 c2 c3 by blast
qed

subsection \<open>C9: priorities of stored tasks\<close>

lemma created_task_has_valid_priority:
  assumes "CreateTask r title description priority assignee dueDate tags dependencies now = (Inr task, r')"
  shows "isValidPriority (Priority task)"
  using assms
  unfolding CreateTask_def GetCurrentUser_def GetNextTaskID_def GetAllTasks_def
  by (auto simp: Let_def repo_CreateTask_def Validate_def
           split: option.splits if_splits prod.splits)

text \<open>
  Claim C9 says that the priority of every stored task stays one of the four legal values
  under every operation. \<^verbatim>\<open>CreateTask\<close> and \<^verbatim>\<open>UpdateTaskDetails\<close> run \<^verbatim>\<open>Validate\<close>, which
  tests the priority; \<^verbatim>\<open>UpdateTaskPriority\<close> writes its argument without any test.
\<close>

theorem C9_update_priority_stores_any_string:
  "fst (UpdateTaskPriority store_AB 1 ''urgent'' 10) = None
   \<and> fmlookup (tasks (snd (UpdateTaskPriority store_AB 1 ''urgent'' 10))) 1
        = Some (task_A\<lparr>Priority := ''urgent'', UpdatedAt := 10\<rparr>)
   \<and> \<not> isValidPriority ''urgent''
   \<and> fst (CreateTask store_AB ''T'' ''D'' ''urgent'' ''alice'' None [] [] 10)
        = Inl (ValidationFailed InvalidPriority)"
  by code_simp

subsection \<open>C10: authenticating a second user\<close>

lemma post_check_ignores_sessions:
  "post_check (r\<lparr>sessions := ss, currentUser := cu\<rparr>) = post_check r"
  by (simp add: post_check_def CheckAllInvariants_def GetSystemState_def GetUserTasks_def
      checkNoOrphanTasks_def checkTaskOwnership_def checkValidTaskIds_def
      checkNoDuplicateTaskIds_def checkValidStateTransitions_def checkConsistentTimestamps_def
      checkNoCyclicDependencies_def checkAuthenticationRequired_def state_GetUserTasks_def)






section \<open>The stores that the operations reach\<close>

text \<open>
  Several of the claims above are stated for a store that passes the engine. This section
  shows that this is every store the system can be in: starting from
  \<^verbatim>\<open>NewMemoryRepository\<close> with any users, whatever requests are served at non-decreasing
  clock readings, the store passes the engine, every dependency id names a stored task and
  the id counter is positive. In particular the postcondition check at the end of the four
  checked operations never fails on a run of the system; a store that fails the engine, as
  in the examples for C3 and C5, can only be built through the repository interface.
\<close>

subsection \<open>What passing the engine means\<close>

lemma snapshot_index_iff:
  "(\<exists>u \<in> fmdom' (UserTasks (GetSystemState r)). k \<in> state_GetUserTasks (GetSystemState r) u)
     \<longleftrightarrow> (\<exists>u. k \<in> GetUserTasks r u)"
proof
  assume "\<exists>u \<in> fmdom' (UserTasks (GetSystemState r)). k \<in> state_GetUserTasks (GetSystemState r) u"
  then show "\<exists>u. k \<in> GetUserTasks r u"
    unfolding snapshot_user_tasks by blast
next
  assume "\<exists>u. k \<in> GetUserTasks r u"
  then obtain u where u: "k \<in> GetUserTasks r u"
    by blast
  then have "u \<in> fmdom' (UserTasks (GetSystemState r))"
    by (auto simp: GetSystemState_def GetUserTasks_def fmlookup_dom'_iff split: option.splits)
  with u show "\<exists>u \<in> fmdom' (UserTasks (GetSystemState r)). k \<in> state_GetUserTasks (GetSystemState r) u"
    unfolding snapshot_user_tasks by blast
qed

lemma post_check_iff:
  "post_check r = None \<longleftrightarrow>
     (\<forall>k t. fmlookup (tasks r) k = Some t \<longrightarrow> task_ok r k t) \<and> acyclic_check (tasks r)"
proof -
  have t: "Tasks (GetSystemState r) = tasks r" "NextTaskID (GetSystemState r) = nextTaskID r"
    by (simp_all add: GetSystemState_def)
  have c: "checkNoCyclicDependencies (GetSystemState r) = acyclic_check (tasks r)"
    by (simp add: checkNoCyclicDependencies_def acyclic_check_def t)
  have o: "checkNoOrphanTasks (GetSystemState r)
             \<longleftrightarrow> (\<forall>k t. fmlookup (tasks r) k = Some t \<longrightarrow> (\<exists>u. k \<in> GetUserTasks r u))"
    unfolding checkNoOrphanTasks_def all_tasks_iff snapshot_index_iff t ..
  show ?thesis
    unfolding post_check_None_iff c o
    unfolding checkTaskOwnership_def checkValidTaskIds_def
      checkNoDuplicateTaskIds_def checkValidStateTransitions_def checkConsistentTimestamps_def
      checkAuthenticationRequired_def all_tasks_iff snapshot_user_tasks t
      task_ok_def isValidStatus_def
    by (auto simp: not_less not_le)
qed

subsection \<open>The cycle search under changes of the graph\<close>

text \<open>
  A search that never meets the node \<open>x\<close> does not depend on the dependencies of \<open>x\<close>; a
  search that returns with some depth bound returns the same with a larger one. With these,
  the engine's cycle check survives adding a node that no stored task points to, provided
  the search from the new node finds no cycle, and removing a node that no stored task
  points to.
\<close>

lemma hasCycle_unreached:
  fixes x :: TaskID
  shows "\<forall>y. y \<noteq> x \<longrightarrow> deps y = deps' y \<and> x \<notin> set (deps y) \<Longrightarrow> t \<noteq> x
           \<Longrightarrow> hasCycle n deps t st = hasCycle n deps' t st"
    and "\<forall>y. y \<noteq> x \<longrightarrow> deps y = deps' y \<and> x \<notin> set (deps y) \<Longrightarrow> x \<notin> set ds
           \<Longrightarrow> hasCycle_range n deps ds st = hasCycle_range n deps' ds st"
proof (induction n deps t st and n deps ds st rule: hasCycle_hasCycle_range.induct)
  case (1 deps taskID visited recStack)
  then show ?case by simp
next
  case (2 n deps taskID visited recStack)
  from "2.prems" have same: "deps taskID = deps' taskID" and free: "x \<notin> set (deps taskID)"
    by auto
  have "hasCycle_range n deps (deps taskID) (insert taskID visited, insert taskID recStack)
          = hasCycle_range n deps' (deps taskID) (insert taskID visited, insert taskID recStack)"
    by (rule "2.IH"[OF "2.prems"(1) free])
  then show ?case
    by (simp add: same)
next
  case (3 n deps visited recStack)
  then show ?case by simp
next
  case (4 n deps depID rest visited recStack)
  from "4.prems" have d: "depID \<noteq> x" and r: "x \<notin> set rest"
    by auto
  show ?case
  proof (cases "depID \<notin> visited")
    case True
    have h: "hasCycle n deps depID (visited, recStack) = hasCycle n deps' depID (visited, recStack)"
      by (rule "4.IH"(1)[OF True "4.prems"(1) d])
    show ?thesis
    proof (cases "hasCycle n deps depID (visited, recStack)")
      case None
      with h True show ?thesis by simp
    next
      case (Some res)
      obtain b v rs where res: "res = (b, v, rs)"
        by (cases res) auto
      show ?thesis
      proof (cases b)
        case True
        with Some res h \<open>depID \<notin> visited\<close> show ?thesis by simp
      next
        case False
        then have bF: "b = False" by simp
        have "hasCycle_range n deps rest (v, rs) = hasCycle_range n deps' rest (v, rs)"
          by (rule "4.IH"(2)[OF True Some[unfolded res] refl bF refl "4.prems"(1) r])
        with Some res h bF \<open>depID \<notin> visited\<close> show ?thesis by simp
      qed
    qed
  next
    case False
    show ?thesis
    proof (cases "depID \<in> recStack")
      case True
      with False show ?thesis by simp
    next
      case nr: False
      have "hasCycle_range n deps rest (visited, recStack)
              = hasCycle_range n deps' rest (visited, recStack)"
        by (rule "4.IH"(3)[OF False nr "4.prems"(1) r])
      with False nr show ?thesis by simp
    qed
  qed
qed

lemma hasCycle_more_fuel:
  shows "hasCycle n deps t st = Some res \<Longrightarrow> hasCycle (Suc n) deps t st = Some res"
    and "hasCycle_range n deps ds st = Some res \<Longrightarrow> hasCycle_range (Suc n) deps ds st = Some res"
proof (induction n deps t st and n deps ds st arbitrary: res and res rule: hasCycle_hasCycle_range.induct)
  case (1 deps taskID visited recStack)
  then show ?case by simp
next
  case (2 n deps taskID visited recStack)
  from "2.prems" obtain res' where
    r: "hasCycle_range n deps (deps taskID) (insert taskID visited, insert taskID recStack) = Some res'"
    by (auto split: option.splits)
  from "2.IH"[OF r] "2.prems" r show ?case
    by simp
next
  case (3 n deps visited recStack)
  then show ?case by simp
next
  case (4 n deps depID rest visited recStack)
  show ?case
  proof (cases "depID \<notin> visited")
    case True
    with "4.prems" obtain res' where h: "hasCycle n deps depID (visited, recStack) = Some res'"
      by (auto split: option.splits)
    obtain b v rs where res': "res' = (b, v, rs)"
      by (cases res') auto
    note up = "4.IH"(1)[OF True h]
    show ?thesis
    proof (cases b)
      case True
      with "4.prems" h res' up \<open>depID \<notin> visited\<close> show ?thesis
        by (auto simp del: hasCycle.simps)
    next
      case False
      then have bF: "b = False" by simp
      from "4.prems" h res' bF \<open>depID \<notin> visited\<close>
      have "hasCycle_range n deps rest (v, rs) = Some res" by simp
      from "4.IH"(2)[OF True h[unfolded res'] refl bF refl this] h res' bF up \<open>depID \<notin> visited\<close>
      show ?thesis by (auto simp del: hasCycle.simps)
    qed
  next
    case False
    show ?thesis
    proof (cases "depID \<in> recStack")
      case True
      with False "4.prems" show ?thesis by simp
    next
      case nr: False
      with False "4.prems" have "hasCycle_range n deps rest (visited, recStack) = Some res"
        by simp
      from "4.IH"(3)[OF False nr this] False nr show ?thesis by simp
    qed
  qed
qed

lemma acyclic_check_same:
  assumes "fmdom' m' = fmdom' m" "state_deps m' = state_deps m"
  shows "acyclic_check m' = acyclic_check m"
  by (simp add: acyclic_check_def assms)

lemma acyclic_check_add:
  assumes fresh: "fmlookup m n = None"
    and stored: "dependencies_stored m"
    and ac: "acyclic_check m"
    and new: "\<not> cycle_verdict (hasCycle (Suc (Suc (card (fmdom' m))))
                 (new_task_deps n (Dependencies task) m) n ({}, {}))"
  shows "acyclic_check (fmupd n task m)"
proof -
  let ?m' = "fmupd n task m"
  have nd: "n \<notin> fmdom' m"
    using fresh by (simp add: fmdom'_notI)
  have dom: "fmdom' ?m' = insert n (fmdom' m)"
    by simp
  have card: "card (fmdom' ?m') = Suc (card (fmdom' m))"
    using nd by (simp add: dom)
  have deps: "state_deps ?m' = new_task_deps n (Dependencies task) m"
    using fresh by (auto simp: state_deps_def new_task_deps_def fun_eq_iff)
  have other: "\<forall>y. y \<noteq> n \<longrightarrow> state_deps ?m' y = state_deps m y \<and> n \<notin> set (state_deps ?m' y)"
  proof (intro allI impI conjI)
    fix y assume y: "y \<noteq> n"
    then show e: "state_deps ?m' y = state_deps m y"
      by (simp add: state_deps_def)
    show "n \<notin> set (state_deps ?m' y)"
    proof (cases "fmlookup m y")
      case None
      then show ?thesis
        unfolding e by (simp add: state_deps_def)
    next
      case (Some t)
      with stored have "\<forall>d \<in> set (Dependencies t). fmlookup m d \<noteq> None"
        unfolding dependencies_stored_def all_tasks_iff by blast
      with fresh have "n \<notin> set (Dependencies t)"
        by blast
      with Some show ?thesis
        unfolding e by (simp add: state_deps_def)
    qed
  qed
  show ?thesis
    unfolding acyclic_check_def card
  proof
    fix tid assume "tid \<in> fmdom' ?m'"
    then consider "tid = n" | "tid \<in> fmdom' m" "tid \<noteq> n"
      using nd by auto
    then show "\<not> cycle_verdict (hasCycle (Suc (Suc (card (fmdom' m)))) (state_deps ?m') tid ({}, {}))"
    proof cases
      case 1
      with new show ?thesis
        unfolding deps by simp
    next
      case 2
      obtain b v s where run: "hasCycle (Suc (card (fmdom' m))) (state_deps m) tid ({}, {}) = Some (b, v, s)"
        using engine_search_returns by blast
      from ac 2(1) run have "\<not> cycle_verdict (Some (b, v, s))"
        unfolding acyclic_check_def by metis
      moreover have "hasCycle (Suc (Suc (card (fmdom' m)))) (state_deps ?m') tid ({}, {})
                       = hasCycle (Suc (Suc (card (fmdom' m)))) (state_deps m) tid ({}, {})"
        by (rule hasCycle_unreached(1)[OF other 2(2)])
      moreover have "hasCycle (Suc (Suc (card (fmdom' m)))) (state_deps m) tid ({}, {}) = Some (b, v, s)"
        by (rule hasCycle_more_fuel(1)[OF run])
      ultimately show ?thesis
        by simp
    qed
  qed
qed

lemma acyclic_check_drop:
  assumes look: "fmlookup m tid = Some task"
    and unref: "\<forall>k t. fmlookup m k = Some t \<longrightarrow> tid \<notin> set (Dependencies t)"
    and ac: "acyclic_check m"
  shows "acyclic_check (fmdrop tid m)"
proof -
  let ?m' = "fmdrop tid m"
  have td: "tid \<in> fmdom' m"
    using look by (simp add: fmdom'I)
  have dom: "fmdom' ?m' = fmdom' m - {tid}"
    by simp
  have card: "Suc (card (fmdom' ?m')) = card (fmdom' m)"
    unfolding dom by (rule card_Suc_Diff1[OF _ td]) simp
  have other: "\<forall>y. y \<noteq> tid \<longrightarrow> state_deps ?m' y = state_deps m y \<and> tid \<notin> set (state_deps ?m' y)"
  proof (intro allI impI conjI)
    fix y assume y: "y \<noteq> tid"
    then show e: "state_deps ?m' y = state_deps m y"
      by (simp add: state_deps_def)
    show "tid \<notin> set (state_deps ?m' y)"
      unfolding e using unref by (cases "fmlookup m y") (auto simp: state_deps_def)
  qed
  show ?thesis
    unfolding acyclic_check_def
  proof
    fix k assume "k \<in> fmdom' ?m'"
    then have k: "k \<in> fmdom' m" "k \<noteq> tid"
      by auto
    obtain b v s where run: "hasCycle (Suc (card (fmdom' ?m'))) (state_deps ?m') k ({}, {}) = Some (b, v, s)"
      using engine_search_returns by blast
    have "hasCycle (Suc (card (fmdom' ?m'))) (state_deps ?m') k ({}, {})
            = hasCycle (Suc (card (fmdom' ?m'))) (state_deps m) k ({}, {})"
      by (rule hasCycle_unreached(1)[OF other k(2)])
    with run have "hasCycle (card (fmdom' m)) (state_deps m) k ({}, {}) = Some (b, v, s)"
      unfolding card by simp
    then have "hasCycle (Suc (card (fmdom' m))) (state_deps m) k ({}, {}) = Some (b, v, s)"
      by (rule hasCycle_more_fuel(1))
    with ac k(1) have "\<not> cycle_verdict (Some (b, v, s))"
      unfolding acyclic_check_def by metis
    with run show "\<not> cycle_verdict (hasCycle (Suc (card (fmdom' ?m'))) (state_deps ?m') k ({}, {}))"
      by simp
  qed
qed

subsection \<open>The invariant and the operations\<close>

lemma store_inv_iff:
  "store_inv r now \<longleftrightarrow>
     (\<forall>k t. fmlookup (tasks r) k = Some t \<longrightarrow>
        task_ok r k t \<and> (\<forall>d \<in> set (Dependencies t). fmlookup (tasks r) d \<noteq> None)
        \<and> UpdatedAt t \<le> now)
     \<and> acyclic_check (tasks r) \<and> 1 \<le> nextTaskID r"
  unfolding store_inv_def store_ok_def clock_ahead_def dependencies_stored_def all_tasks_iff
    post_check_iff
  by blast

lemma store_inv_post_check: "store_inv r now \<Longrightarrow> post_check r = None"
  by (simp add: store_inv_def store_ok_def)

lemma store_inv_later: "store_inv r t \<Longrightarrow> t \<le> t' \<Longrightarrow> store_inv r t'"
  unfolding store_inv_iff by (meson order_trans)

lemma store_inv_touched_refl:
  "store_inv r now \<Longrightarrow> fmlookup (tasks r) k = Some t \<Longrightarrow> touched now t t"
  unfolding store_inv_iff touched_def task_ok_def by blast

lemma store_inv_pointwise:
  assumes inv: "store_inv r now"
    and rel: "\<forall>k. rel_option (touched now) (fmlookup (tasks r) k) (fmlookup m' k)"
  shows "store_inv (r\<lparr>tasks := m'\<rparr>) now"
proof -
  have none: "fmlookup m' k = None \<longleftrightarrow> fmlookup (tasks r) k = None" for k
    using spec[OF rel, of k] by (cases "fmlookup (tasks r) k"; cases "fmlookup m' k") simp_all
  have some: "\<exists>t. fmlookup (tasks r) k = Some t \<and> touched now t t'" if "fmlookup m' k = Some t'" for k t'
    using spec[OF rel, of k] that by (cases "fmlookup (tasks r) k") simp_all
  have dom: "fmdom' m' = fmdom' (tasks r)"
    using none by (auto simp: fmlookup_dom'_iff) (metis option.exhaust option.distinct(1))+
  have deps: "state_deps m' = state_deps (tasks r)"
  proof
    fix k
    show "state_deps m' k = state_deps (tasks r) k"
    proof (cases "fmlookup m' k")
      case None
      with none[of k] show ?thesis by (simp add: state_deps_def)
    next
      case (Some t')
      from some[OF this] Some show ?thesis by (auto simp: state_deps_def touched_def)
    qed
  qed
  have ac: "acyclic_check m'"
    using inv unfolding acyclic_check_same[OF dom deps] store_inv_iff by blast
  have each: "task_ok (r\<lparr>tasks := m'\<rparr>) k t' \<and> (\<forall>d \<in> set (Dependencies t'). fmlookup m' d \<noteq> None)
                \<and> UpdatedAt t' \<le> now" if "fmlookup m' k = Some t'" for k t'
  proof -
    from some[OF that] obtain t where t: "fmlookup (tasks r) k = Some t" and tt: "touched now t t'"
      by blast
    from inv t have old: "task_ok r k t" "\<forall>d \<in> set (Dependencies t). fmlookup (tasks r) d \<noteq> None"
      "UpdatedAt t \<le> now"
      unfolding store_inv_iff by blast+
    from old(1) tt old(3) have "task_ok (r\<lparr>tasks := m'\<rparr>) k t'"
      unfolding task_ok_def touched_def GetUserTasks_def by auto
    moreover from old(2) tt have "\<forall>d \<in> set (Dependencies t'). fmlookup m' d \<noteq> None"
      unfolding touched_def using none by auto
    moreover from old(3) tt have "UpdatedAt t' \<le> now"
      unfolding touched_def by auto
    ultimately show ?thesis by blast
  qed
  from inv have "1 \<le> nextTaskID r"
    unfolding store_inv_iff by blast
  with ac each show ?thesis
    unfolding store_inv_iff by simp
qed

lemma store_inv_update:
  assumes inv: "store_inv r now"
    and look: "fmlookup (tasks r) k = Some t"
    and tt: "touched now t t'"
  shows "repo_UpdateTask r t' = (None, r\<lparr>tasks := fmupd k t' (tasks r)\<rparr>)"
    and "store_inv (r\<lparr>tasks := fmupd k t' (tasks r)\<rparr>) now"
proof -
  have "ID t = k"
    by (rule key_is_ID[OF store_inv_post_check[OF inv] look])
  with tt have "ID t' = k" "Assignee t' = Assignee t"
    by (simp_all add: touched_def)
  then show "repo_UpdateTask r t' = (None, r\<lparr>tasks := fmupd k t' (tasks r)\<rparr>)"
    using look by (simp add: repo_UpdateTask_def)
  show "store_inv (r\<lparr>tasks := fmupd k t' (tasks r)\<rparr>) now"
  proof (rule store_inv_pointwise[OF inv], rule allI)
    fix j
    show "rel_option (touched now) (fmlookup (tasks r) j) (fmlookup (fmupd k t' (tasks r)) j)"
    proof (cases "j = k")
      case True
      with look tt show ?thesis by simp
    next
      case False
      then show ?thesis
        using store_inv_touched_refl[OF inv, of j]
        by (cases "fmlookup (tasks r) j") simp_all
    qed
  qed
qed

lemma store_inv_sessions:
  "store_inv (r\<lparr>sessions := ss, currentUser := cu\<rparr>) now = store_inv r now"
  by (simp add: store_inv_def store_ok_def clock_ahead_def post_check_ignores_sessions)

lemma Authenticate_keeps:
  assumes inv: "store_inv r now"
  shows "store_inv (snd (Authenticate r userID token now)) now"
proof -
  have "snd (Authenticate r userID token now) = r
        \<or> (\<exists>ss cu. snd (Authenticate r userID token now) = r\<lparr>sessions := ss, currentUser := cu\<rparr>)"
    by (auto simp: Authenticate_def GetUser_def CreateSession_def SetCurrentUser_def Rollback_def
        Let_def split: option.splits sum.splits)
  with inv show ?thesis
    by (auto simp: store_inv_sessions)
qed

lemma UpdateTaskStatus_keeps:
  assumes inv: "store_inv r now"
  shows "store_inv (snd (UpdateTaskStatus r taskID newStatus now)) now"
proof (cases "fmlookup (tasks r) taskID")
  case None
  with inv show ?thesis
    by (simp add: UpdateTaskStatus_def GetCurrentUser_def GetTask_def split: option.splits)
next
  case (Some task)
  show ?thesis
  proof (cases "IsValidTransition (Status task) newStatus")
    case False
    with inv Some show ?thesis
      by (simp add: UpdateTaskStatus_def GetCurrentUser_def GetTask_def split: option.splits)
  next
    case True
    let ?t' = "task\<lparr>Status := newStatus, UpdatedAt := now\<rparr>"
    have "isValidStatus newStatus"
      using IsValidTransition_valid_target[OF True] by (auto simp: isValidStatus_def)
    then have tt: "touched now task ?t'"
      by (simp add: touched_def)
    note up = store_inv_update[OF inv Some tt]
    from inv up show ?thesis
      by (simp add: UpdateTaskStatus_def GetCurrentUser_def GetTask_def Some Rollback_def
          split: option.splits)
  qed
qed

lemma UpdateTaskPriority_keeps:
  assumes inv: "store_inv r now"
  shows "store_inv (snd (UpdateTaskPriority r taskID newPriority now)) now"
proof (cases "fmlookup (tasks r) taskID")
  case None
  with inv show ?thesis
    by (simp add: UpdateTaskPriority_def GetCurrentUser_def GetTask_def split: option.splits)
next
  case (Some task)
  let ?t' = "task\<lparr>Priority := newPriority, UpdatedAt := now\<rparr>"
  have tt: "touched now task ?t'"
    using store_inv_touched_refl[OF inv Some] by (simp add: touched_def)
  note up = store_inv_update[OF inv Some tt]
  from inv up show ?thesis
    by (simp add: UpdateTaskPriority_def GetCurrentUser_def GetTask_def Some split: option.splits)
qed

lemma UpdateTaskDetails_keeps:
  assumes inv: "store_inv r now"
  shows "store_inv (snd (UpdateTaskDetails r taskID title description dueDate now)) now"
proof (cases "fmlookup (tasks r) taskID")
  case None
  with inv show ?thesis
    by (simp add: UpdateTaskDetails_def GetCurrentUser_def GetTask_def split: option.splits)
next
  case (Some task)
  let ?t' = "task\<lparr>Title := title, Description := description, DueDate := dueDate, UpdatedAt := now\<rparr>"
  have tt: "touched now task ?t'"
    using store_inv_touched_refl[OF inv Some] by (simp add: touched_def)
  note up = store_inv_update[OF inv Some tt]
  from inv up show ?thesis
    by (simp add: UpdateTaskDetails_def GetCurrentUser_def GetTask_def Some Let_def
        split: option.splits)
qed

lemma bulk_precheck_valid:
  "bulk_precheck r cu st ids = None \<Longrightarrow>
     \<forall>tid \<in> set ids. \<exists>t. fmlookup (tasks r) tid = Some t \<and> IsValidTransition (Status t) st"
  by (induction ids) (auto simp: GetTask_def split: option.splits if_splits sum.splits)

lemma BulkUpdateStatus_keeps:
  assumes inv: "store_inv r now"
  shows "store_inv (snd (BulkUpdateStatus r taskIDs newStatus now)) now"
proof (cases "\<exists>cu. currentUser r = Some cu \<and> bulk_precheck r cu newStatus taskIDs = None")
  case False
  with inv show ?thesis
    by (auto simp: BulkUpdateStatus_def GetCurrentUser_def split: option.splits)
next
  case True
  then obtain cu where cu: "currentUser r = Some cu" and pre: "bulk_precheck r cu newStatus taskIDs = None"
    by blast
  let ?m' = "fold (bulk_set_status newStatus now) taskIDs (tasks r)"
  have "store_inv (r\<lparr>tasks := ?m'\<rparr>) now"
  proof (rule store_inv_pointwise[OF inv], rule allI)
    fix k
    show "rel_option (touched now) (fmlookup (tasks r) k) (fmlookup ?m' k)"
    proof (cases "fmlookup (tasks r) k")
      case None
      then show ?thesis by (simp add: fold_bulk_set_status_lookup)
    next
      case (Some t)
      show ?thesis
      proof (cases "k \<in> set taskIDs")
        case True
        with bulk_precheck_valid[OF pre] Some have "IsValidTransition (Status t) newStatus"
          by auto
        then have "isValidStatus newStatus"
          using IsValidTransition_valid_target by (auto simp: isValidStatus_def)
        with True Some show ?thesis
          by (simp add: fold_bulk_set_status_lookup touched_def)
      next
        case False
        with Some store_inv_touched_refl[OF inv Some] show ?thesis
          by (simp add: fold_bulk_set_status_lookup)
      qed
    qed
  qed
  then show ?thesis
    by (simp add: BulkUpdateStatus_def GetCurrentUser_def cu pre repo_BulkUpdateStatus_def
        Rollback_def Let_def split: option.splits)
qed

lemma CheckDependencies_keeps:
  assumes inv: "store_inv r now"
  shows "store_inv (snd (CheckDependencies r now)) now"
proof -
  have keys: "\<forall>k t. fmlookup (tasks r) k = Some t \<longrightarrow> ID t = k"
    using key_is_ID[OF store_inv_post_check[OF inv]] by blast
  let ?L = "GetTasksByStatus r StatusBlocked"
  from unblock_loop_run[OF blocked_tasks_facts(1,2)[OF keys], of StatusBlocked "GetAllTasks r" now 0]
  obtain r' where run: "snd (unblock_loop ?L (GetAllTasks r) now 0 r) = r'"
    and look: "\<forall>k. fmlookup (tasks r') k =
                  (if \<exists>t \<in> set ?L. ID t = k \<and> ShouldUnblock t (GetAllTasks r)
                   then map_option (\<lambda>t. t\<lparr>Status := StatusPending, UpdatedAt := now\<rparr>) (fmlookup (tasks r) k)
                   else fmlookup (tasks r) k)"
    and rec: "r' = r\<lparr>tasks := tasks r'\<rparr>"
    by auto
  have "store_inv (r\<lparr>tasks := tasks r'\<rparr>) now"
  proof (rule store_inv_pointwise[OF inv], rule allI)
    fix k
    show "rel_option (touched now) (fmlookup (tasks r) k) (fmlookup (tasks r') k)"
    proof (cases "fmlookup (tasks r) k")
      case None
      then show ?thesis by (simp add: look)
    next
      case (Some t)
      from store_inv_touched_refl[OF inv Some] have "touched now t t" .
      moreover from this have "touched now t (t\<lparr>Status := StatusPending, UpdatedAt := now\<rparr>)"
        by (simp add: touched_def isValidStatus_def)
      ultimately show ?thesis
        using Some by (simp add: look)
    qed
  qed
  with rec run show ?thesis
    by (simp add: CheckDependencies_def)
qed

lemma index_add_user_task:
  "(case fmlookup (add_user_task ut u tid) v of None \<Rightarrow> {} | Some ids \<Rightarrow> ids) =
     (if v = u then insert tid (case fmlookup ut v of None \<Rightarrow> {} | Some ids \<Rightarrow> ids)
      else (case fmlookup ut v of None \<Rightarrow> {} | Some ids \<Rightarrow> ids))"
  by (simp add: add_user_task_def split: option.splits)

lemma index_remove_user_task:
  "(case fmlookup (remove_user_task ut u tid) v of None \<Rightarrow> {} | Some ids \<Rightarrow> ids) =
     (if v = u then (case fmlookup ut v of None \<Rightarrow> {} | Some ids \<Rightarrow> ids) - {tid}
      else (case fmlookup ut v of None \<Rightarrow> {} | Some ids \<Rightarrow> ids))"
  by (simp add: remove_user_task_def split: option.splits)

lemma reassign_update:
  assumes Some: "fmlookup (tasks r) taskID = Some task" and id: "ID task = taskID"
  shows "repo_UpdateTask r (task\<lparr>Assignee := newAssignee, UpdatedAt := now\<rparr>) =
     (None, r\<lparr>userTasks :=
                  (if Assignee task \<noteq> newAssignee
                   then add_user_task (remove_user_task (userTasks r) (Assignee task) taskID) newAssignee taskID
                   else userTasks r),
                tasks := fmupd taskID (task\<lparr>Assignee := newAssignee, UpdatedAt := now\<rparr>) (tasks r)\<rparr>)"
    by (simp add: repo_UpdateTask_def Some id)

lemma reassign_index:
  "GetUserTasks (AddUserTask (RemoveUserTask
      (r\<lparr>userTasks := (if old \<noteq> new
                          then add_user_task (remove_user_task (userTasks r) old tid) new tid
                          else userTasks r),
          tasks := m\<rparr>) old tid) new tid) v =
     (if v = new then insert tid (GetUserTasks r v)
      else if v = old then GetUserTasks r v - {tid} else GetUserTasks r v)"
  by (cases "old = new")
    (simp_all add: GetUserTasks_def AddUserTask_def RemoveUserTask_def
      index_add_user_task index_remove_user_task)

lemma store_inv_reassign:
  assumes inv: "store_inv r now"
    and look: "fmlookup (tasks r) taskID = Some task"
    and tk: "tasks r' = fmupd taskID (task\<lparr>Assignee := new, UpdatedAt := now\<rparr>) (tasks r)"
    and nx: "nextTaskID r' = nextTaskID r"
    and idx: "\<And>v. GetUserTasks r' v =
               (if v = new then insert taskID (GetUserTasks r v)
                else if v = Assignee task then GetUserTasks r v - {taskID} else GetUserTasks r v)"
  shows "store_inv r' now"
proof -
  let ?t' = "task\<lparr>Assignee := new, UpdatedAt := now\<rparr>"
  from inv look have old: "task_ok r taskID task"
    "\<forall>d \<in> set (Dependencies task). fmlookup (tasks r) d \<noteq> None" "UpdatedAt task \<le> now"
    unfolding store_inv_iff by blast+
  have dom: "fmdom' (fmupd taskID ?t' (tasks r)) = fmdom' (tasks r)"
    by (rule fmdom'_fmupd_present[OF look])
  have deps: "state_deps (fmupd taskID ?t' (tasks r)) = state_deps (tasks r)"
    by (rule state_deps_same_dependencies[OF look]) simp
  have ac: "acyclic_check (tasks r')"
    using inv unfolding store_inv_iff tk acyclic_check_same[OF dom deps] by blast
  have n: "1 \<le> nextTaskID r'"
    using inv unfolding store_inv_iff nx by blast
  have "taskID \<in> GetUserTasks r' new"
    by (simp add: idx)
  then have new_ok: "task_ok r' taskID ?t'"
    using old(1,3) unfolding task_ok_def nx by auto
  have other_ok: "task_ok r' k t" if "k \<noteq> taskID" "fmlookup (tasks r) k = Some t" for k t
  proof -
    from inv that(2) have "task_ok r k t"
      unfolding store_inv_iff by blast
    then obtain u where u: "k \<in> GetUserTasks r u" and o: "k \<in> GetUserTasks r (Assignee t)"
      and rest: "1 \<le> k" "k < nextTaskID r" "k = ID t" "isValidStatus (Status t)"
        "CreatedAt t \<le> UpdatedAt t" "CreatedBy t \<noteq> []"
      unfolding task_ok_def by blast
    from u that(1) have "k \<in> GetUserTasks r' u"
      by (auto simp: idx)
    moreover from o that(1) have "k \<in> GetUserTasks r' (Assignee t)"
      by (auto simp: idx)
    ultimately show ?thesis
      unfolding task_ok_def nx using rest by blast
  qed
  have each: "task_ok r' k t \<and> (\<forall>d \<in> set (Dependencies t). fmlookup (tasks r') d \<noteq> None)
                \<and> UpdatedAt t \<le> now" if kt: "fmlookup (tasks r') k = Some t" for k t
  proof (cases "k = taskID")
    case True
    with kt have t: "t = ?t'"
      by (simp add: tk)
    have "\<forall>d \<in> set (Dependencies ?t'). fmlookup (tasks r') d \<noteq> None"
      using old(2) by (simp add: tk)
    with new_ok True t show ?thesis
      by simp
  next
    case False
    with kt have o: "fmlookup (tasks r) k = Some t"
      by (simp add: tk)
    with inv have "\<forall>d \<in> set (Dependencies t). fmlookup (tasks r) d \<noteq> None" "UpdatedAt t \<le> now"
      unfolding store_inv_iff by blast+
    then have "\<forall>d \<in> set (Dependencies t). fmlookup (tasks r') d \<noteq> None" "UpdatedAt t \<le> now"
      by (simp_all add: tk)
    with other_ok[OF False o] show ?thesis
      by blast
  qed
  from each ac n show ?thesis
    unfolding store_inv_iff by blast
qed

lemma ReassignTask_keeps:
  assumes inv: "store_inv r now"
  shows "store_inv (snd (ReassignTask r taskID newAssignee now)) now"
proof (cases "fmlookup (tasks r) taskID")
  case None
  with inv show ?thesis
    by (simp add: ReassignTask_def GetCurrentUser_def GetTask_def split: option.splits)
next
  case (Some task)
  have id: "ID task = taskID"
    by (rule key_is_ID[OF store_inv_post_check[OF inv] Some])
  note up = reassign_update[OF Some id, where newAssignee = newAssignee and now = now]
  have "store_inv (AddUserTask (RemoveUserTask
          (r\<lparr>userTasks :=
               (if Assignee task \<noteq> newAssignee
                then add_user_task (remove_user_task (userTasks r) (Assignee task) taskID) newAssignee taskID
                else userTasks r),
             tasks := fmupd taskID (task\<lparr>Assignee := newAssignee, UpdatedAt := now\<rparr>) (tasks r)\<rparr>)
          (Assignee task) taskID) newAssignee taskID) now"
    by (rule store_inv_reassign[OF inv Some _ _ reassign_index])
      (simp_all add: AddUserTask_def RemoveUserTask_def)
  with inv show ?thesis
    by (simp add: ReassignTask_def GetCurrentUser_def GetTask_def Some up Let_def
        split: option.splits sum.splits)
qed

lemma DeleteTask_keeps:
  assumes inv: "store_inv r now"
  shows "store_inv (snd (DeleteTask r taskID)) now"
proof (cases "fmlookup (tasks r) taskID")
  case None
  with inv show ?thesis
    by (simp add: DeleteTask_def GetCurrentUser_def GetTask_def split: option.splits)
next
  case (Some task)
  show ?thesis
  proof (cases "length (GetTasksByDependency r taskID) > 0")
    case True
    with inv Some show ?thesis
      by (simp add: DeleteTask_def GetCurrentUser_def GetTask_def split: option.splits)
  next
    case False
    then have unref: "\<forall>k t. fmlookup (tasks r) k = Some t \<longrightarrow> taskID \<notin> set (Dependencies t)"
      unfolding has_dependents_iff by blast
    let ?ra = "r\<lparr>userTasks := remove_user_task (userTasks r) (Assignee task) taskID\<rparr>"
    let ?r' = "?ra\<lparr>tasks := fmdrop taskID (tasks r)\<rparr>"
    have del: "repo_DeleteTask r taskID = (None, ?r')"
      by (simp add: repo_DeleteTask_def Some)
    have tk: "tasks ?r' = fmdrop taskID (tasks r)" and nx: "nextTaskID ?r' = nextTaskID r"
      by simp_all
    have idx: "GetUserTasks ?r' v =
                 (if v = Assignee task then GetUserTasks r v - {taskID} else GetUserTasks r v)" for v
      by (simp add: GetUserTasks_def index_remove_user_task)
    have inv': "store_inv ?r' now"
      unfolding store_inv_iff tk nx
    proof (intro conjI allI impI ballI)
      show "acyclic_check (fmdrop taskID (tasks r))"
        using inv by (intro acyclic_check_drop[OF Some unref]) (simp add: store_inv_iff)
      show "1 \<le> nextTaskID r"
        using inv unfolding store_inv_iff by blast
    next
      fix k t assume kt: "fmlookup (fmdrop taskID (tasks r)) k = Some t"
      then have k: "k \<noteq> taskID" and old: "fmlookup (tasks r) k = Some t"
        by (auto split: if_splits)
      from inv old have ok: "task_ok r k t"
        "\<forall>d \<in> set (Dependencies t). fmlookup (tasks r) d \<noteq> None" "UpdatedAt t \<le> now"
        unfolding store_inv_iff by blast+
      from ok(1) k show "task_ok ?r' k t"
        unfolding task_ok_def idx nx by auto
      show "UpdatedAt t \<le> now"
        by (rule ok(3))
      fix d assume d: "d \<in> set (Dependencies t)"
      with unref old have "d \<noteq> taskID" by blast
      with ok(2) d show "fmlookup (fmdrop taskID (tasks r)) d \<noteq> None"
        by simp
    qed
    from inv inv' show ?thesis
      by (simp add: DeleteTask_def GetCurrentUser_def GetTask_def Some del split: option.splits)
  qed
qed

lemma store_inv_create:
  assumes inv: "store_inv r now"
    and tk: "tasks r' = fmupd (nextTaskID r) task (tasks r)"
    and nx: "nextTaskID r' = nextTaskID r + 1"
    and idx: "\<And>v. GetUserTasks r' v =
               (if v = Assignee task then insert (nextTaskID r) (GetUserTasks r v)
                else GetUserTasks r v)"
    and id: "ID task = nextTaskID r"
    and st: "isValidStatus (Status task)"
    and tm: "CreatedAt task \<le> UpdatedAt task" "UpdatedAt task \<le> now"
    and cr: "CreatedBy task \<noteq> []"
    and ds: "\<forall>d \<in> set (Dependencies task). fmlookup (tasks r) d \<noteq> None"
    and nc: "\<not> cycle_verdict (hasCycle (Suc (Suc (card (fmdom' (tasks r)))))
                 (new_task_deps (nextTaskID r) (Dependencies task) (tasks r)) (nextTaskID r) ({}, {}))"
  shows "store_inv r' now"
proof -
  let ?n = "nextTaskID r"
  from inv have n1: "1 \<le> ?n" and ac0: "acyclic_check (tasks r)"
    and stored: "dependencies_stored (tasks r)"
    unfolding store_inv_iff dependencies_stored_def all_tasks_iff by blast+
  have below: "k < ?n" if "fmlookup (tasks r) k = Some t" for k t
    using inv that unfolding store_inv_iff task_ok_def by blast
  have fresh: "fmlookup (tasks r) ?n = None"
    using below[of ?n] by (cases "fmlookup (tasks r) ?n") auto
  have ac: "acyclic_check (tasks r')"
    unfolding tk by (rule acyclic_check_add[OF fresh stored ac0 nc])
  have n: "1 \<le> nextTaskID r'"
    using n1 by (simp add: nx)
  have "?n \<in> GetUserTasks r' (Assignee task)"
    by (simp add: idx)
  then have new_ok: "task_ok r' ?n task"
    using n1 id st tm(1) cr unfolding task_ok_def nx by auto
  have other_ok: "task_ok r' k t" if "fmlookup (tasks r) k = Some t" for k t
  proof -
    from inv that have "task_ok r k t"
      unfolding store_inv_iff by blast
    then obtain u where u: "k \<in> GetUserTasks r u" and o: "k \<in> GetUserTasks r (Assignee t)"
      and rest: "1 \<le> k" "k < nextTaskID r" "k = ID t" "isValidStatus (Status t)"
        "CreatedAt t \<le> UpdatedAt t" "CreatedBy t \<noteq> []"
      unfolding task_ok_def by blast
    from u have "k \<in> GetUserTasks r' u"
      by (auto simp: idx)
    moreover from o have "k \<in> GetUserTasks r' (Assignee t)"
      by (auto simp: idx)
    moreover from rest(2) have "k < nextTaskID r'"
      by (simp add: nx)
    ultimately show ?thesis
      unfolding task_ok_def using rest by blast
  qed
  have each: "task_ok r' k t \<and> (\<forall>d \<in> set (Dependencies t). fmlookup (tasks r') d \<noteq> None)
                \<and> UpdatedAt t \<le> now" if kt: "fmlookup (tasks r') k = Some t" for k t
  proof (cases "k = ?n")
    case True
    with kt have t: "t = task"
      by (simp add: tk)
    have "\<forall>d \<in> set (Dependencies task). fmlookup (tasks r') d \<noteq> None"
      using ds by (simp add: tk)
    with new_ok True t tm(2) show ?thesis
      by simp
  next
    case False
    with kt have o: "fmlookup (tasks r) k = Some t"
      by (simp add: tk)
    with inv have "\<forall>d \<in> set (Dependencies t). fmlookup (tasks r) d \<noteq> None" "UpdatedAt t \<le> now"
      unfolding store_inv_iff by blast+
    then have "\<forall>d \<in> set (Dependencies t). fmlookup (tasks r') d \<noteq> None" "UpdatedAt t \<le> now"
      by (simp_all add: tk)
    with other_ok[OF o] show ?thesis
      by blast
  qed
  from each ac n show ?thesis
    unfolding store_inv_iff by blast
qed

lemma CreateTask_keeps:
  assumes inv: "store_inv r now"
  shows "store_inv (snd (CreateTask r title description priority assignee dueDate tags dependencies now)) now"
proof -
  let ?n = "nextTaskID r"
  let ?res = "snd (CreateTask r title description priority assignee dueDate tags dependencies now)"
  from inv have n1: "1 \<le> ?n"
    unfolding store_inv_iff by blast
  have fresh: "fmlookup (tasks r) ?n = None"
  proof (cases "fmlookup (tasks r) ?n")
    case (Some t)
    with inv have "task_ok r ?n t"
      unfolding store_inv_iff by blast
    then show ?thesis
      by (simp add: task_ok_def)
  qed simp
  have shape: "?res = r \<or>
    (\<exists>cu. validate_dependencies (tasks r) dependencies = None
        \<and> checkCyclicDependencies ?n (remdups dependencies) (tasks r) = None
        \<and> cu \<noteq> []
        \<and> ?res = r\<lparr>tasks := fmupd ?n
                      \<lparr>ID = ?n, Title = title, Description = description,
                       Status = initial_status dependencies (remdups dependencies) (tasks r),
                       Priority = priority, Assignee = assignee, CreatedBy = cu,
                       CreatedAt = now, UpdatedAt = now, DueDate = dueDate,
                       Tags = tags, Dependencies = remdups dependencies\<rparr> (tasks r),
                    userTasks := add_user_task (userTasks r) assignee ?n,
                    nextTaskID := ?n + 1\<rparr>)"
    using n1 fresh
    unfolding CreateTask_def GetCurrentUser_def GetNextTaskID_def GetAllTasks_def
    by (auto simp: Let_def repo_CreateTask_def IncrementNextTaskID_def Rollback_def Validate_def
             split: option.splits if_splits prod.splits)
  then show ?thesis
  proof
    assume "?res = r"
    with inv show ?thesis by simp
  next
    assume "\<exists>cu. validate_dependencies (tasks r) dependencies = None
        \<and> checkCyclicDependencies ?n (remdups dependencies) (tasks r) = None
        \<and> cu \<noteq> []
        \<and> ?res = r\<lparr>tasks := fmupd ?n
                      \<lparr>ID = ?n, Title = title, Description = description,
                       Status = initial_status dependencies (remdups dependencies) (tasks r),
                       Priority = priority, Assignee = assignee, CreatedBy = cu,
                       CreatedAt = now, UpdatedAt = now, DueDate = dueDate,
                       Tags = tags, Dependencies = remdups dependencies\<rparr> (tasks r),
                    userTasks := add_user_task (userTasks r) assignee ?n,
                    nextTaskID := ?n + 1\<rparr>"
    then obtain cu where vd: "validate_dependencies (tasks r) dependencies = None"
      and cc: "checkCyclicDependencies ?n (remdups dependencies) (tasks r) = None"
      and cu: "cu \<noteq> []"
      and res: "?res = r\<lparr>tasks := fmupd ?n
                      \<lparr>ID = ?n, Title = title, Description = description,
                       Status = initial_status dependencies (remdups dependencies) (tasks r),
                       Priority = priority, Assignee = assignee, CreatedBy = cu,
                       CreatedAt = now, UpdatedAt = now, DueDate = dueDate,
                       Tags = tags, Dependencies = remdups dependencies\<rparr> (tasks r),
                    userTasks := add_user_task (userTasks r) assignee ?n,
                    nextTaskID := ?n + 1\<rparr>"
      by blast
    have "store_inv ?res now"
    proof (rule store_inv_create[OF inv])
      show "tasks ?res = fmupd ?n \<lparr>ID = ?n, Title = title, Description = description,
                       Status = initial_status dependencies (remdups dependencies) (tasks r),
                       Priority = priority, Assignee = assignee, CreatedBy = cu,
                       CreatedAt = now, UpdatedAt = now, DueDate = dueDate,
                       Tags = tags, Dependencies = remdups dependencies\<rparr> (tasks r)"
        unfolding res by simp
    qed (use vd cc cu validate_dependencies_None[OF vd] in
          \<open>auto simp: res GetUserTasks_def index_add_user_task initial_status_def isValidStatus_def
             checkCyclicDependencies_def split: if_splits\<close>)
    then show ?thesis .
  qed
qed

subsection \<open>Runs\<close>

lemma serve_keeps:
  "store_inv r now \<Longrightarrow> store_inv (serve r req now) now"
  by (cases req)
    (simp_all add: Authenticate_keeps CreateTask_keeps UpdateTaskStatus_keeps
      UpdateTaskPriority_keeps ReassignTask_keeps UpdateTaskDetails_keeps DeleteTask_keeps
      BulkUpdateStatus_keeps CheckDependencies_keeps)

lemma serve_all_keeps:
  "store_inv r t0 \<Longrightarrow> sorted (t0 # map snd reqs)
     \<Longrightarrow> store_inv (serve_all r reqs) (last (t0 # map snd reqs))"
proof (induction reqs arbitrary: r t0)
  case Nil
  then show ?case by simp
next
  case (Cons a reqs)
  obtain req now where a: "a = (req, now)"
    by (cases a)
  from Cons.prems(2) have le: "t0 \<le> now" and rest: "sorted (now # map snd reqs)"
    by (simp_all add: a)
  have "store_inv (serve r req now) now"
    by (rule serve_keeps[OF store_inv_later[OF Cons.prems(1) le]])
  from Cons.IH[OF this rest] show ?case
    by (simp add: a)
qed

lemma new_store_inv:
  "store_inv ((NewMemoryRepository clk)\<lparr>users := us\<rparr>) t"
  unfolding store_inv_iff by (simp add: NewMemoryRepository_def acyclic_check_def)

text \<open>
  After any requests served at non-decreasing clock readings, and at any reading \<open>now\<close> not
  before them, the store satisfies the invariant.
\<close>

lemma reachable_store_inv:
  assumes mono: "sorted (map snd reqs)"
    and later: "\<forall>t \<in> set (map snd reqs). t \<le> now"
  shows "store_inv (serve_all ((NewMemoryRepository clk)\<lparr>users := us\<rparr>) reqs) now"
proof (cases reqs)
  case Nil
  then show ?thesis
    by (simp add: new_store_inv)
next
  case (Cons a list)
  let ?t0 = "snd a"
  have "sorted (?t0 # map snd reqs)"
    using mono by (simp add: Cons)
  from serve_all_keeps[OF new_store_inv this]
  have inv: "store_inv (serve_all ((NewMemoryRepository clk)\<lparr>users := us\<rparr>) reqs)
          (last (?t0 # map snd reqs))" .
  have "last (?t0 # map snd reqs) \<in> set (map snd reqs)"
    unfolding Cons by (metis last_in_set last.simps list.map(2) list.simps(3))
  with later have "last (?t0 # map snd reqs) \<le> now"
    by blast
  with inv show ?thesis
    by (rule store_inv_later)
qed

text \<open>
  The invariant gives what the claims C1, C7 and C10 assume of the store: it passes the
  engine, no task was created after the clock reading, and every dependency id names a
  stored task.
\<close>

lemma store_inv_hypotheses:
  assumes "store_inv r now"
  shows "post_check r = None"
    and "\<forall>k t. fmlookup (tasks r) k = Some t \<longrightarrow>
           CreatedAt t \<le> now \<and> (\<forall>d \<in> set (Dependencies t). fmlookup (tasks r) d \<noteq> None)"
proof -
  show "post_check r = None"
    by (rule store_inv_post_check[OF assms])
  show "\<forall>k t. fmlookup (tasks r) k = Some t \<longrightarrow>
           CreatedAt t \<le> now \<and> (\<forall>d \<in> set (Dependencies t). fmlookup (tasks r) d \<noteq> None)"
    using assms unfolding store_inv_iff task_ok_def by fastforce
qed

section \<open>C3: which operations run the engine\<close>








end
